theory Spec2Isabelle
  imports Main
begin

section \<open>Gambit's bounds-checked array (libgambit/array.h)\<close>

text \<open>
  The class template \<open>Gambit::Array<T>\<close> keeps two indices \<open>mindex\<close>, \<open>maxdex\<close> and a
  pointer \<open>data\<close> that is the address of a heap block moved down by \<open>mindex\<close> elements, so
  that \<open>data[i]\<close> is the block's element \<open>i - mindex\<close>. Every member function is embedded
  below with the heap made explicit: a function takes the heap and the object's fields and
  returns its result together with the heap and the fields it leaves behind.
\<close>

subsection \<open>The type int\<close>

text \<open>
  The fields \<open>mindex\<close> and \<open>maxdex\<close>, the index arguments and the loop counters are C++
  \<open>int\<close>s, 32 bits wide in two's complement. A value of type \<open>int\<close> is an integer from
  \<open>INT_MIN\<close> to \<open>INT_MAX\<close>, and every \<open>+\<close> and \<open>-\<close> that the source does on \<open>int\<close>s is
  followed by \<open>wrap\<close>, which brings the exact result back into that range the way the
  machine does: \<open>INT_MAX + 1\<close> is \<open>INT_MIN\<close>. The same reduction converts an
  \<open>unsigned int\<close> to an \<open>int\<close>. Offsets of pointers are computed on the width of an
  address and are left exact.
\<close>

abbreviation INT_MAX :: int where
  "INT_MAX \<equiv> 2147483647"

abbreviation INT_MIN :: int where
  "INT_MIN \<equiv> - 2147483648"

definition is_int :: "int \<Rightarrow> bool" where
  "is_int x = (INT_MIN \<le> x \<and> x \<le> INT_MAX)"

definition wrap :: "int \<Rightarrow> int" where
  "wrap x = (x + 2147483648) mod 4294967296 - 2147483648"

subsection \<open>Outcomes\<close>

text \<open>
  The exceptions: IndexException and RangeException are thrown by the member functions
  (their declarations are not part of array.h); \<open>new T[n]\<close> throws
  \<open>std::bad_array_new_length\<close> when \<open>n\<close> is negative.
\<close>

datatype error = IndexException | RangeException | BadArrayNewLength

text \<open>
  A call returns a value, throws, has undefined behaviour (an access outside an allocated
  block, a \<open>delete []\<close> of something \<open>new []\<close> did not return), or never returns.
\<close>

datatype 'r result = Ok 'r | Throw error | Undefined | Diverges

text \<open>The outcome of a loop: \<open>None\<close> is a loop that runs forever.\<close>

definition returned :: "'r result option \<Rightarrow> 'r result" where
  "returned r = (case r of None \<Rightarrow> Diverges | Some x \<Rightarrow> x)"

subsection \<open>The heap\<close>

type_synonym addr = nat

text \<open>
  A pointer is null or names a block and an element offset into it (possibly outside the
  block, as \<open>new T[n] - mindex\<close> is).
\<close>

datatype ptr = Null | Ptr addr int

text \<open>
  \<open>blocks\<close> holds the arrays allocated by \<open>new T[n]\<close> and not yet deleted; \<open>lim\<close> is the
  next unused block name (block names are never used twice); \<open>fill b j\<close> is what element
  \<open>j\<close> of block \<open>b\<close> holds when the block is allocated: the default-constructed \<open>T\<close> for a
  class type, whatever the memory happens to hold for a built-in type.
\<close>

record 'a heap =
  blocks :: "addr \<rightharpoonup> 'a list"
  lim :: addr
  fill :: "addr \<Rightarrow> nat \<Rightarrow> 'a"

definition fresh_block :: "(nat \<Rightarrow> 'a) \<Rightarrow> nat \<Rightarrow> 'a list" where
  "fresh_block f n = map f [0..<n]"

text \<open>\<open>new T[n] - k\<close>, for \<open>n\<close> an \<open>int\<close> or an \<open>unsigned int\<close>.\<close>

definition new_array :: "'a heap \<Rightarrow> int \<Rightarrow> int \<Rightarrow> (ptr \<times> 'a heap) result" where
  "new_array h n k =
     (if n < 0 then Throw BadArrayNewLength
      else Ok (Ptr (lim h) (- k),
               h\<lparr>blocks := (blocks h)(lim h \<mapsto> fresh_block (fill h (lim h)) (nat n)),
                 lim := Suc (lim h)\<rparr>))"

text \<open>\<open>delete [] (p + k)\<close>: \<open>p + k\<close> must be the start of a live block (or null).\<close>

definition delete_array :: "'a heap \<Rightarrow> ptr \<Rightarrow> int \<Rightarrow> 'a heap result" where
  "delete_array h p k =
     (case p of
        Null \<Rightarrow> (if k = 0 then Ok h else Undefined)
      | Ptr b off \<Rightarrow>
          (if off + k = 0 \<and> blocks h b \<noteq> None
           then Ok (h\<lparr>blocks := (blocks h)(b := None)\<rparr>)
           else Undefined))"

text \<open>Reading \<open>p[i]\<close>.\<close>

definition load :: "'a heap \<Rightarrow> ptr \<Rightarrow> int \<Rightarrow> 'a result" where
  "load h p i =
     (case p of
        Null \<Rightarrow> Undefined
      | Ptr b off \<Rightarrow>
          (case blocks h b of
             None \<Rightarrow> Undefined
           | Some xs \<Rightarrow>
               (if 0 \<le> off + i \<and> off + i < int (length xs)
                then Ok (xs ! nat (off + i)) else Undefined)))"

text \<open>The assignment \<open>p[i] = v\<close>.\<close>

definition store :: "'a heap \<Rightarrow> ptr \<Rightarrow> int \<Rightarrow> 'a \<Rightarrow> 'a heap result" where
  "store h p i v =
     (case p of
        Null \<Rightarrow> Undefined
      | Ptr b off \<Rightarrow>
          (case blocks h b of
             None \<Rightarrow> Undefined
           | Some xs \<Rightarrow>
               (if 0 \<le> off + i \<and> off + i < int (length xs)
                then Ok (h\<lparr>blocks := (blocks h)(b \<mapsto> xs[nat (off + i) := v])\<rparr>)
                else Undefined)))"

subsection \<open>The class Array\<close>

record Array =
  mindex :: int
  maxdex :: int
  data :: ptr

text \<open>
  The copying loops \<open>for (; i <= hi; i++) dst[i] = src[i + k];\<close> of InsertAt
  (\<open>k = 0\<close>, \<open>k = -1\<close>), Remove (\<open>k = 0\<close>, \<open>k = 1\<close>), the copy constructor and the
  assignment (\<open>k = 0\<close>, where \<open>i + k\<close> is \<open>i\<close> itself and \<open>wrap\<close> leaves it as it is). The
  loop variable is returned with the heap, since InsertAt and Remove go on using it. With
  \<open>hi = INT_MAX\<close> the test never fails, so the loop is a partial function.
\<close>

partial_function (option) copy_loop ::
  "'a heap \<Rightarrow> ptr \<Rightarrow> ptr \<Rightarrow> int \<Rightarrow> int \<Rightarrow> int \<Rightarrow> ('a heap \<times> int) result option" where
  "copy_loop h dst src k i hi =
     (if i \<le> hi then
        (case load h src (wrap (i + k)) of
           Ok v \<Rightarrow>
             (case store h dst i v of
                Ok h' \<Rightarrow> copy_loop h' dst src k (wrap (i + 1)) hi
              | Throw e \<Rightarrow> Some (Throw e)
              | Undefined \<Rightarrow> Some Undefined
              | Diverges \<Rightarrow> Some Diverges)
         | Throw e \<Rightarrow> Some (Throw e)
         | Undefined \<Rightarrow> Some Undefined
         | Diverges \<Rightarrow> Some Diverges)
      else Some (Ok (h, i)))"

declare copy_loop.simps [code]

text \<open>The private helper InsertAt (array.h, lines 39 to 54).\<close>

definition InsertAt ::
  "'a heap \<Rightarrow> Array \<Rightarrow> 'a \<Rightarrow> int \<Rightarrow> int result \<times> 'a heap \<times> Array" where
  "InsertAt h a t n =
     (if mindex a > n \<or> n > wrap (maxdex a + 1) then (Throw IndexException, h, a)
      else
        let a1 = a\<lparr>maxdex := wrap (maxdex a + 1)\<rparr> in
        (case new_array h (wrap (wrap (maxdex a1 - mindex a1) + 1)) (mindex a1) of
           Ok (new_data, h1) \<Rightarrow>
             (case returned (copy_loop h1 new_data (data a1) 0 (mindex a1) (wrap (n - 1))) of
                Ok (h2, i) \<Rightarrow>
                  (case store h2 new_data i t of
                     Ok h3 \<Rightarrow>
                       (case returned
                               (copy_loop h3 new_data (data a1) (- 1) (wrap (i + 1))
                                  (maxdex a1)) of
                          Ok (h4, i') \<Rightarrow>
                            (case (if data a1 \<noteq> Null
                                   then delete_array h4 (data a1) (mindex a1)
                                   else Ok h4) of
                               Ok h5 \<Rightarrow> (Ok n, h5, a1\<lparr>data := new_data\<rparr>)
                             | Throw e \<Rightarrow> (Throw e, h4, a1)
                             | Undefined \<Rightarrow> (Undefined, h4, a1)
                             | Diverges \<Rightarrow> (Diverges, h4, a1))
                        | Throw e \<Rightarrow> (Throw e, h3, a1)
                        | Undefined \<Rightarrow> (Undefined, h3, a1)
                        | Diverges \<Rightarrow> (Diverges, h3, a1))
                   | Throw e \<Rightarrow> (Throw e, h2, a1)
                   | Undefined \<Rightarrow> (Undefined, h2, a1)
                   | Diverges \<Rightarrow> (Diverges, h2, a1))
              | Throw e \<Rightarrow> (Throw e, h1, a1)
              | Undefined \<Rightarrow> (Undefined, h1, a1)
              | Diverges \<Rightarrow> (Diverges, h1, a1))
         | Throw e \<Rightarrow> (Throw e, h, a1)
         | Undefined \<Rightarrow> (Undefined, h, a1)
         | Diverges \<Rightarrow> (Diverges, h, a1)))"

text \<open>
  \<open>Array(unsigned int len = 0)\<close>: \<open>len\<close> is below \<open>2 ^ 32\<close>; storing it in the \<open>int\<close>
  \<open>maxdex\<close> converts it.
\<close>

definition Array_len :: "'a heap \<Rightarrow> nat \<Rightarrow> Array result \<times> 'a heap" where
  "Array_len h len =
     (if len \<noteq> 0 then
        (case new_array h (int len) 1 of
           Ok (p, h1) \<Rightarrow> (Ok \<lparr>mindex = 1, maxdex = wrap (int len), data = p\<rparr>, h1)
         | Throw e \<Rightarrow> (Throw e, h)
         | Undefined \<Rightarrow> (Undefined, h)
         | Diverges \<Rightarrow> (Diverges, h))
      else (Ok \<lparr>mindex = 1, maxdex = wrap (int len), data = Null\<rparr>, h))"

text \<open>\<open>Array(int lo, int hi)\<close>.\<close>

definition Array_range :: "'a heap \<Rightarrow> int \<Rightarrow> int \<Rightarrow> Array result \<times> 'a heap" where
  "Array_range h lo hi =
     (if wrap (hi + 1) < lo then (Throw RangeException, h)
      else if hi \<ge> lo then
        (case new_array h (wrap (wrap (hi - lo) + 1)) lo of
           Ok (p, h1) \<Rightarrow> (Ok \<lparr>mindex = lo, maxdex = hi, data = p\<rparr>, h1)
         | Throw e \<Rightarrow> (Throw e, h)
         | Undefined \<Rightarrow> (Undefined, h)
         | Diverges \<Rightarrow> (Diverges, h))
      else (Ok \<lparr>mindex = lo, maxdex = hi, data = Null\<rparr>, h))"

text \<open>The copy constructor \<open>Array(const Array<T> &a)\<close>.\<close>

definition Array_copy :: "'a heap \<Rightarrow> Array \<Rightarrow> Array result \<times> 'a heap" where
  "Array_copy h a =
     (case (if maxdex a \<ge> mindex a
            then new_array h (wrap (wrap (maxdex a - mindex a) + 1)) (mindex a)
            else Ok (Null, h)) of
        Ok (p, h1) \<Rightarrow>
          (case returned (copy_loop h1 p (data a) 0 (mindex a) (maxdex a)) of
             Ok (h2, i) \<Rightarrow> (Ok \<lparr>mindex = mindex a, maxdex = maxdex a, data = p\<rparr>, h2)
           | Throw e \<Rightarrow> (Throw e, h1)
           | Undefined \<Rightarrow> (Undefined, h1)
           | Diverges \<Rightarrow> (Diverges, h1))
      | Throw e \<Rightarrow> (Throw e, h)
      | Undefined \<Rightarrow> (Undefined, h)
      | Diverges \<Rightarrow> (Diverges, h))"

text \<open>The destructor.\<close>

definition Array_destroy :: "'a heap \<Rightarrow> Array \<Rightarrow> 'a heap result" where
  "Array_destroy h a =
     (if maxdex a \<ge> mindex a then delete_array h (data a) (mindex a) else Ok h)"

text \<open>
  \<open>operator=\<close>, for a receiver that is not the argument itself (\<open>this != &a\<close>; otherwise
  the function does nothing). The argument is \<open>const\<close>: only the receiver's fields are
  returned.
\<close>

definition assign :: "'a heap \<Rightarrow> Array \<Rightarrow> Array \<Rightarrow> unit result \<times> 'a heap \<times> Array" where
  "assign h this a =
     (case (if data this = Null
               \<or> (data this \<noteq> Null \<and> (mindex this \<noteq> mindex a \<or> maxdex this \<noteq> maxdex a))
            then
              (case (if data this \<noteq> Null
                     then delete_array h (data this) (mindex this) else Ok h) of
                 Ok h1 \<Rightarrow>
                   (if maxdex a \<ge> mindex a then
                      (case new_array h1 (wrap (wrap (maxdex a - mindex a) + 1)) (mindex a) of
                         Ok (p, h2) \<Rightarrow>
                           Ok (h2, \<lparr>mindex = mindex a, maxdex = maxdex a, data = p\<rparr>)
                       | Throw e \<Rightarrow> Throw e
                       | Undefined \<Rightarrow> Undefined
                       | Diverges \<Rightarrow> Diverges)
                    else Ok (h1, \<lparr>mindex = mindex a, maxdex = maxdex a, data = Null\<rparr>))
               | Throw e \<Rightarrow> Throw e
               | Undefined \<Rightarrow> Undefined
               | Diverges \<Rightarrow> Diverges)
            else Ok (h, this)) of
        Ok (h3, this1) \<Rightarrow>
          (case returned
                  (copy_loop h3 (data this1) (data a) 0 (mindex this1) (maxdex this1)) of
             Ok (h4, i) \<Rightarrow> (Ok (), h4, this1)
           | Throw e \<Rightarrow> (Throw e, h3, this1)
           | Undefined \<Rightarrow> (Undefined, h3, this1)
           | Diverges \<Rightarrow> (Diverges, h3, this1))
      | Throw e \<Rightarrow> (Throw e, h, this)
      | Undefined \<Rightarrow> (Undefined, h, this)
      | Diverges \<Rightarrow> (Diverges, h, this))"

text \<open>Length, First, Last.\<close>

definition Length :: "Array \<Rightarrow> int" where
  "Length a = wrap (wrap (maxdex a - mindex a) + 1)"

definition First :: "Array \<Rightarrow> int" where
  "First a = mindex a"

definition Last :: "Array \<Rightarrow> int" where
  "Last a = maxdex a"

text \<open>
  \<open>operator[]\<close>. The const and the non-const version have the same body; the latter
  returns a reference through which the caller may assign, which is \<open>assign_at\<close>.
\<close>

definition index :: "'a heap \<Rightarrow> Array \<Rightarrow> int \<Rightarrow> 'a result" where
  "index h a i =
     (if i < mindex a \<or> i > maxdex a then Throw IndexException else load h (data a) i)"

definition assign_at :: "'a heap \<Rightarrow> Array \<Rightarrow> int \<Rightarrow> 'a \<Rightarrow> unit result \<times> 'a heap" where
  "assign_at h a i v =
     (if i < mindex a \<or> i > maxdex a then (Throw IndexException, h)
      else (case store h (data a) i v of
              Ok h' \<Rightarrow> (Ok (), h')
            | Throw e \<Rightarrow> (Throw e, h)
            | Undefined \<Rightarrow> (Undefined, h)
            | Diverges \<Rightarrow> (Diverges, h)))"

text \<open>
  \<open>operator==\<close> and \<open>operator!=\<close>. The elements are compared with \<open>T\<close>'s own
  \<open>operator!=\<close>, the parameter \<open>ne\<close>: for \<open>double\<close> it holds of a NaN and itself. The loop
  reads both arrays through \<open>operator[]\<close>.
\<close>

partial_function (option) equal_loop ::
  "('a \<Rightarrow> 'a \<Rightarrow> bool) \<Rightarrow> 'a heap \<Rightarrow> Array \<Rightarrow> Array \<Rightarrow> int \<Rightarrow> bool result option" where
  "equal_loop ne h this a i =
     (if i \<le> maxdex this then
        (case index h this i of
           Ok x \<Rightarrow>
             (case index h a i of
                Ok y \<Rightarrow>
                  (if ne x y then Some (Ok False)
                   else equal_loop ne h this a (wrap (i + 1)))
              | Throw e \<Rightarrow> Some (Throw e)
              | Undefined \<Rightarrow> Some Undefined
              | Diverges \<Rightarrow> Some Diverges)
         | Throw e \<Rightarrow> Some (Throw e)
         | Undefined \<Rightarrow> Some Undefined
         | Diverges \<Rightarrow> Some Diverges)
      else Some (Ok True))"

declare equal_loop.simps [code]

definition equal :: "('a \<Rightarrow> 'a \<Rightarrow> bool) \<Rightarrow> 'a heap \<Rightarrow> Array \<Rightarrow> Array \<Rightarrow> bool result" where
  "equal ne h this a =
     (if mindex this \<noteq> mindex a \<or> maxdex this \<noteq> maxdex a then Ok False
      else returned (equal_loop ne h this a (mindex this)))"

definition not_equal :: "('a \<Rightarrow> 'a \<Rightarrow> bool) \<Rightarrow> 'a heap \<Rightarrow> Array \<Rightarrow> Array \<Rightarrow> bool result" where
  "not_equal ne h this a =
     (case equal ne h this a of
        Ok b \<Rightarrow> Ok (\<not> b)
      | Throw e \<Rightarrow> Throw e
      | Undefined \<Rightarrow> Undefined
      | Diverges \<Rightarrow> Diverges)"

text \<open>
  Find: the loop has an empty body, reads \<open>data[i]\<close> directly and compares with \<open>T\<close>'s
  \<open>operator!=\<close>.
\<close>

partial_function (option) Find_loop ::
  "('a \<Rightarrow> 'a \<Rightarrow> bool) \<Rightarrow> 'a heap \<Rightarrow> Array \<Rightarrow> 'a \<Rightarrow> int \<Rightarrow> int result option" where
  "Find_loop ne h a t i =
     (if i \<le> maxdex a then
        (case load h (data a) i of
           Ok x \<Rightarrow> (if ne x t then Find_loop ne h a t (wrap (i + 1)) else Some (Ok i))
         | Throw e \<Rightarrow> Some (Throw e)
         | Undefined \<Rightarrow> Some Undefined
         | Diverges \<Rightarrow> Some Diverges)
      else Some (Ok i))"

declare Find_loop.simps [code]

definition Find :: "('a \<Rightarrow> 'a \<Rightarrow> bool) \<Rightarrow> 'a heap \<Rightarrow> Array \<Rightarrow> 'a \<Rightarrow> int result" where
  "Find ne h a t =
     (case returned (Find_loop ne h a t (mindex a)) of
        Ok i \<Rightarrow> Ok (if i \<le> maxdex a then i else wrap (mindex a - 1))
      | Throw e \<Rightarrow> Throw e
      | Undefined \<Rightarrow> Undefined
      | Diverges \<Rightarrow> Diverges)"

definition Contains :: "('a \<Rightarrow> 'a \<Rightarrow> bool) \<Rightarrow> 'a heap \<Rightarrow> Array \<Rightarrow> 'a \<Rightarrow> bool result" where
  "Contains ne h a t =
     (case Find ne h a t of
        Ok i \<Rightarrow> Ok (i \<noteq> wrap (mindex a - 1))
      | Throw e \<Rightarrow> Throw e
      | Undefined \<Rightarrow> Undefined
      | Diverges \<Rightarrow> Diverges)"

text \<open>Append and Insert.\<close>

definition Append :: "'a heap \<Rightarrow> Array \<Rightarrow> 'a \<Rightarrow> int result \<times> 'a heap \<times> Array" where
  "Append h a t = InsertAt h a t (wrap (maxdex a + 1))"

definition Insert ::
  "'a heap \<Rightarrow> Array \<Rightarrow> 'a \<Rightarrow> int \<Rightarrow> int result \<times> 'a heap \<times> Array" where
  "Insert h a t n =
     InsertAt h a t
       (if n < mindex a then mindex a
        else (if n > wrap (maxdex a + 1) then wrap (maxdex a + 1) else n))"

text \<open>
  Remove (array.h, lines 180 to 195). The first loop's test is \<open>i < n\<close>, which involves no
  arithmetic: it is the bound \<open>n - 1\<close> of \<open>copy_loop\<close>, left exact.
\<close>

definition Remove :: "'a heap \<Rightarrow> Array \<Rightarrow> int \<Rightarrow> 'a result \<times> 'a heap \<times> Array" where
  "Remove h a n =
     (if n < mindex a \<or> n > maxdex a then (Throw IndexException, h, a)
      else
        (case load h (data a) n of
           Ok ret \<Rightarrow>
             (let a1 = a\<lparr>maxdex := wrap (maxdex a - 1)\<rparr> in
              (case (if maxdex a1 \<ge> mindex a1
                     then new_array h (wrap (wrap (maxdex a1 - mindex a1) + 1)) (mindex a1)
                     else Ok (Null, h)) of
                 Ok (new_data, h1) \<Rightarrow>
                   (case returned (copy_loop h1 new_data (data a1) 0 (mindex a1) (n - 1)) of
                      Ok (h2, i) \<Rightarrow>
                        (case returned (copy_loop h2 new_data (data a1) 1 i (maxdex a1)) of
                           Ok (h3, i') \<Rightarrow>
                             (case delete_array h3 (data a1) (mindex a1) of
                                Ok h4 \<Rightarrow> (Ok ret, h4, a1\<lparr>data := new_data\<rparr>)
                              | Throw e \<Rightarrow> (Throw e, h3, a1)
                              | Undefined \<Rightarrow> (Undefined, h3, a1)
                              | Diverges \<Rightarrow> (Diverges, h3, a1))
                         | Throw e \<Rightarrow> (Throw e, h2, a1)
                         | Undefined \<Rightarrow> (Undefined, h2, a1)
                         | Diverges \<Rightarrow> (Diverges, h2, a1))
                    | Throw e \<Rightarrow> (Throw e, h1, a1)
                    | Undefined \<Rightarrow> (Undefined, h1, a1)
                    | Diverges \<Rightarrow> (Diverges, h1, a1))
               | Throw e \<Rightarrow> (Throw e, h, a1)
               | Undefined \<Rightarrow> (Undefined, h, a1)
               | Diverges \<Rightarrow> (Diverges, h, a1)))
         | Throw e \<Rightarrow> (Throw e, h, a)
         | Undefined \<Rightarrow> (Undefined, h, a)
         | Diverges \<Rightarrow> (Diverges, h, a)))"

subsection \<open>The class ArrayPtrConstIterator\<close>

text \<open>
  The iterator keeps a const reference to an \<open>Array<T *>\<close> and a cursor. The array is not
  changed through the reference and is not to be changed while the iterator is in use, so
  the record holds the array's fields. The array's elements are pointers of a type \<open>'p\<close>;
  \<open>objs\<close> maps a pointer to the object it points to, if any.
\<close>

record ArrayPtrConstIterator =
  m_array :: Array
  m_index :: int

definition Iterator :: "Array \<Rightarrow> ArrayPtrConstIterator" where
  "Iterator p_array = \<lparr>m_array = p_array, m_index = First p_array\<rparr>"

text \<open>\<open>operator++(void)\<close> and \<open>operator++(int)\<close>: \<open>m_index++\<close> on an \<open>int\<close>.\<close>

definition incr_prefix :: "ArrayPtrConstIterator \<Rightarrow> ArrayPtrConstIterator" where
  "incr_prefix it = it\<lparr>m_index := wrap (m_index it + 1)\<rparr>"

definition incr_postfix :: "ArrayPtrConstIterator \<Rightarrow> ArrayPtrConstIterator" where
  "incr_postfix it = it\<lparr>m_index := wrap (m_index it + 1)\<rparr>"

definition AtEnd :: "ArrayPtrConstIterator \<Rightarrow> bool" where
  "AtEnd it = (m_index it > Last (m_array it))"

text \<open>\<open>operator*\<close>, \<open>operator->\<close> and the conversion \<open>operator T *\<close>.\<close>

definition deref :: "'p heap \<Rightarrow> ('p \<rightharpoonup> 't) \<Rightarrow> ArrayPtrConstIterator \<Rightarrow> 't result" where
  "deref h objs it =
     (case index h (m_array it) (m_index it) of
        Ok p \<Rightarrow> (case objs p of None \<Rightarrow> Undefined | Some x \<Rightarrow> Ok x)
      | Throw e \<Rightarrow> Throw e
      | Undefined \<Rightarrow> Undefined
      | Diverges \<Rightarrow> Diverges)"

definition arrow :: "'p heap \<Rightarrow> ArrayPtrConstIterator \<Rightarrow> 'p result" where
  "arrow h it = index h (m_array it) (m_index it)"

definition to_pointer :: "'p heap \<Rightarrow> ArrayPtrConstIterator \<Rightarrow> 'p result" where
  "to_pointer h it = index h (m_array it) (m_index it)"

subsection \<open>The class invariant\<close>

text \<open>
  The fields of an array are \<open>int\<close>s. An array is well formed in a heap when it is empty
  with \<open>maxdex = mindex - 1\<close> and a null \<open>data\<close>, or \<open>data\<close> is the start of a live block
  of \<open>maxdex - mindex + 1\<close> elements moved down by \<open>mindex\<close>, that number being an \<open>int\<close>.
  \<open>Array(lo, hi)\<close> and the copy constructor establish this, and so does \<open>Array(len)\<close> up to
  \<open>len = INT_MAX\<close> (\<open>Array_range_wf\<close>, \<open>Array_copy_wf\<close>, \<open>Array_len_wf\<close>); InsertAt, Remove
  and the assignment keep it where no \<open>int\<close> overflows (\<open>InsertAt_obs\<close>, \<open>Remove_obs\<close>,
  \<open>assign_obs\<close>).
\<close>

definition wf :: "'a heap \<Rightarrow> Array \<Rightarrow> bool" where
  "wf h a =
     (is_int (mindex a) \<and> is_int (maxdex a) \<and>
      (case data a of
         Null \<Rightarrow> maxdex a = mindex a - 1
       | Ptr b off \<Rightarrow>
           mindex a \<le> maxdex a \<and> maxdex a - mindex a < INT_MAX \<and>
           off = - mindex a \<and> b < lim h \<and>
           (case blocks h b of
              None \<Rightarrow> False
            | Some xs \<Rightarrow> int (length xs) = maxdex a - mindex a + 1)))"

text \<open>The elements an array owns, from index \<open>mindex\<close> to \<open>maxdex\<close>.\<close>

definition elems :: "'a heap \<Rightarrow> Array \<Rightarrow> 'a list" where
  "elems h a =
     (case data a of
        Null \<Rightarrow> []
      | Ptr b off \<Rightarrow> (case blocks h b of None \<Rightarrow> [] | Some xs \<Rightarrow> xs))"

text \<open>The live blocks once the block of a pointer is deleted.\<close>

definition release :: "(addr \<rightharpoonup> 'a list) \<Rightarrow> ptr \<Rightarrow> (addr \<rightharpoonup> 'a list)" where
  "release m p = (case p of Null \<Rightarrow> m | Ptr b off \<Rightarrow> m(b := None))"

text \<open>Two arrays own different blocks: no storage is shared between two Array objects.\<close>

definition separate :: "Array \<Rightarrow> Array \<Rightarrow> bool" where
  "separate a b =
     (case data a of
        Null \<Rightarrow> True
      | Ptr x off \<Rightarrow> (case data b of Null \<Rightarrow> True | Ptr y off' \<Rightarrow> x \<noteq> y))"

subsection \<open>Example states\<close>

text \<open>
  Arrays of \<open>int\<close>s, compared with \<open>!=\<close> on \<open>int\<close>. The heap before anything is allocated
  (new blocks hold zeros), and the array of section 8 of the specification: bounds 1 to 3,
  elements 10, 20, 30.
\<close>

definition int_ne :: "int \<Rightarrow> int \<Rightarrow> bool" where
  "int_ne x y = (x \<noteq> y)"

definition empty_heap :: "int heap" where
  "empty_heap = \<lparr>blocks = Map.empty, lim = 0, fill = (\<lambda>b j. 0)\<rparr>"

definition ex_heap :: "int heap" where
  "ex_heap = \<lparr>blocks = [0 \<mapsto> [10, 20, 30]], lim = 1, fill = (\<lambda>b j. 0)\<rparr>"

definition ex_array :: Array where
  "ex_array = \<lparr>mindex = 1, maxdex = 3, data = Ptr 0 (- 1)\<rparr>"

text \<open>The example array and a copy of it made by the copy constructor.\<close>

definition ex_heap2 :: "int heap" where
  "ex_heap2 =
     \<lparr>blocks = [0 \<mapsto> [10, 20, 30], 1 \<mapsto> [10, 20, 30]], lim = 2, fill = (\<lambda>b j. 0)\<rparr>"

definition ex_copy :: Array where
  "ex_copy = \<lparr>mindex = 1, maxdex = 3, data = Ptr 1 (- 1)\<rparr>"

text \<open>
  The example array together with two receivers for an assignment: one of the same
  bounds, one of other bounds.
\<close>

definition ex_heap3 :: "int heap" where
  "ex_heap3 =
     \<lparr>blocks = [0 \<mapsto> [10, 20, 30], 1 \<mapsto> [7, 8, 9], 2 \<mapsto> [7, 8]], lim = 3,
      fill = (\<lambda>b j. 0)\<rparr>"

definition ex_same :: Array where
  "ex_same = \<lparr>mindex = 1, maxdex = 3, data = Ptr 1 (- 1)\<rparr>"

definition ex_other :: Array where
  "ex_other = \<lparr>mindex = 0, maxdex = 1, data = Ptr 2 0\<rparr>"



text \<open>What \<open>Array(2147483647u)\<close> leaves, whose \<open>Last()\<close> is \<open>INT_MAX\<close>, and an empty array.\<close>

definition full_heap :: "int heap" where
  "full_heap =
     \<lparr>blocks = [0 \<mapsto> fresh_block (\<lambda>j. 0) 2147483647], lim = 1, fill = (\<lambda>b j. 0)\<rparr>"

definition full_array :: Array where
  "full_array = \<lparr>mindex = 1, maxdex = INT_MAX, data = Ptr 0 (- 1)\<rparr>"

definition none_array :: Array where
  "none_array = \<lparr>mindex = 1, maxdex = 0, data = Null\<rparr>"

text \<open>What \<open>Array(-5, 2147483641)\<close> leaves, whose \<open>Length()\<close> is \<open>INT_MAX\<close>.\<close>

definition wide_heap :: "int heap" where
  "wide_heap =
     \<lparr>blocks = [0 \<mapsto> fresh_block (\<lambda>j. 0) 2147483647], lim = 1, fill = (\<lambda>b j. 0)\<rparr>"

definition wide_array :: Array where
  "wide_array = \<lparr>mindex = - 5, maxdex = 2147483641, data = Ptr 0 5\<rparr>"

text \<open>\<open>Array(INT_MAX - 1, INT_MAX - 1)\<close> holding 7.\<close>

definition top_heap :: "int heap" where
  "top_heap = \<lparr>blocks = [0 \<mapsto> [7]], lim = 1, fill = (\<lambda>b j. 0)\<rparr>"

definition top_array :: Array where
  "top_array = \<lparr>mindex = 2147483646, maxdex = 2147483646, data = Ptr 0 (- 2147483646)\<rparr>"

text \<open>\<open>Array(INT_MIN, INT_MIN)\<close> holding 7, and \<open>Array(INT_MIN, INT_MIN + 2)\<close> holding 1, 2, 3.\<close>

definition low_heap :: "int heap" where
  "low_heap = \<lparr>blocks = [0 \<mapsto> [7]], lim = 1, fill = (\<lambda>b j. 0)\<rparr>"

definition low_array :: Array where
  "low_array = \<lparr>mindex = INT_MIN, maxdex = INT_MIN, data = Ptr 0 2147483648\<rparr>"

definition low3_heap :: "int heap" where
  "low3_heap = \<lparr>blocks = [0 \<mapsto> [1, 2, 3]], lim = 1, fill = (\<lambda>b j. 0)\<rparr>"

definition low3_array :: Array where
  "low3_array = \<lparr>mindex = INT_MIN, maxdex = - 2147483646, data = Ptr 0 2147483648\<rparr>"

text \<open>
  Arrays of \<open>double\<close>s, as far as comparison goes: a \<open>double\<close> is a number or a NaN, and
  \<open>!=\<close> holds whenever one side is a NaN. An array holding one NaN, and its copy.
\<close>

datatype dbl = Num int | NaN


definition nan_heap :: "dbl heap" where
  "nan_heap = \<lparr>blocks = [0 \<mapsto> [NaN], 1 \<mapsto> [NaN]], lim = 2, fill = (\<lambda>b j. Num 0)\<rparr>"

definition nan_array :: Array where
  "nan_array = \<lparr>mindex = 1, maxdex = 1, data = Ptr 0 (- 1)\<rparr>"

definition nan_copy :: Array where
  "nan_copy = \<lparr>mindex = 1, maxdex = 1, data = Ptr 1 (- 1)\<rparr>"

section \<open>Verification\<close>

subsection \<open>The type int\<close>

lemma wrap_id: "is_int x \<Longrightarrow> wrap x = x"
  by (simp add: wrap_def is_int_def)

lemma is_int_wrap: "is_int (wrap x)"
proof -
  have "0 \<le> (x + 2147483648) mod 4294967296" "(x + 2147483648) mod 4294967296 < 4294967296"
    by simp_all
  then show ?thesis unfolding wrap_def is_int_def by linarith
qed

lemma wrap_ends: "wrap (INT_MAX + 1) = INT_MIN" "wrap (INT_MIN - 1) = INT_MAX"
  by (simp_all add: wrap_def)

subsection \<open>Memory\<close>

lemma length_fresh_block: "length (fresh_block f n) = n"
  by (simp add: fresh_block_def)

lemma copy_loop_empty: "hi < i \<Longrightarrow> copy_loop h dst src k i hi = Some (Ok (h, i))"
  by (subst copy_loop.simps) simp

lemma copy_loop_Ok:
  assumes "blocks h bd = Some xs" and "blocks h bs = Some ys" and "bd \<noteq> bs"
    and "i \<le> hi \<longrightarrow> is_int i \<and> hi < INT_MAX \<and> is_int (i + k) \<and> is_int (hi + k) \<and>
           0 \<le> od + i \<and> od + hi < int (length xs) \<and>
           0 \<le> os + i + k \<and> os + hi + k < int (length ys)"
  shows "\<exists>xs'. copy_loop h (Ptr bd od) (Ptr bs os) k i hi =
            Some (Ok (h\<lparr>blocks := (blocks h)(bd \<mapsto> xs')\<rparr>, max i (hi + 1))) \<and>
          length xs' = length xs \<and>
          (\<forall>j < length xs. xs' ! j =
             (if od + i \<le> int j \<and> int j \<le> od + hi
              then ys ! nat (int j - od + os + k) else xs ! j))"
  using assms
proof (induction "nat (hi + 1 - i)" arbitrary: i h xs)
  case 0
  then have gt: "hi < i" by simp
  then have "copy_loop h (Ptr bd od) (Ptr bs os) k i hi = Some (Ok (h, i))"
    by (rule copy_loop_empty)
  moreover have "h\<lparr>blocks := (blocks h)(bd \<mapsto> xs)\<rparr> = h"
    using "0.prems"(1) by (simp add: map_upd_triv)
  ultimately have "copy_loop h (Ptr bd od) (Ptr bs os) k i hi =
      Some (Ok (h\<lparr>blocks := (blocks h)(bd \<mapsto> xs)\<rparr>, max i (hi + 1)))"
    using gt by (simp add: max_def)
  moreover have "\<forall>j < length xs. xs ! j =
             (if od + i \<le> int j \<and> int j \<le> od + hi
              then ys ! nat (int j - od + os + k) else xs ! j)"
    using gt by auto
  ultimately show ?case by blast
next
  case (Suc n)
  then have le: "i \<le> hi" by simp
  note p = Suc.prems(4)[rule_format, OF le]
  have wi: "wrap (i + k) = i + k" and w1: "wrap (i + 1) = i + 1"
    using p le by (simp_all add: wrap_id is_int_def)
  let ?v = "ys ! nat (os + (i + k))"
  let ?xs1 = "xs[nat (od + i) := ?v]"
  let ?h1 = "h\<lparr>blocks := (blocks h)(bd \<mapsto> ?xs1)\<rparr>"
  have ld: "load h (Ptr bs os) (i + k) = Ok ?v"
    using p le Suc.prems(2) by (simp add: load_def add.assoc)
  have st: "store h (Ptr bd od) i ?v = Ok ?h1"
    using p le Suc.prems(1) by (simp add: store_def)
  have n: "n = nat (hi + 1 - (i + 1))" using Suc.hyps(2) by simp
  have "\<exists>xs'. copy_loop ?h1 (Ptr bd od) (Ptr bs os) k (i + 1) hi =
            Some (Ok (?h1\<lparr>blocks := (blocks ?h1)(bd \<mapsto> xs')\<rparr>, max (i + 1) (hi + 1))) \<and>
          length xs' = length ?xs1 \<and>
          (\<forall>j < length ?xs1. xs' ! j =
             (if od + (i + 1) \<le> int j \<and> int j \<le> od + hi
              then ys ! nat (int j - od + os + k) else ?xs1 ! j))"
    using p Suc.prems(2,3) le
    by (intro Suc.hyps(1)[OF n]) (auto simp: is_int_def)
  then obtain xs' where
    c: "copy_loop ?h1 (Ptr bd od) (Ptr bs os) k (i + 1) hi =
            Some (Ok (?h1\<lparr>blocks := (blocks ?h1)(bd \<mapsto> xs')\<rparr>, max (i + 1) (hi + 1)))"
    and l: "length xs' = length ?xs1"
    and nn: "\<forall>j < length ?xs1. xs' ! j =
             (if od + (i + 1) \<le> int j \<and> int j \<le> od + hi
              then ys ! nat (int j - od + os + k) else ?xs1 ! j)"
    by blast
  have "copy_loop h (Ptr bd od) (Ptr bs os) k i hi =
            Some (Ok (h\<lparr>blocks := (blocks h)(bd \<mapsto> xs')\<rparr>, max i (hi + 1)))"
    using le ld st c wi w1 by (subst copy_loop.simps) (simp add: max_def)
  moreover have "length xs' = length xs" using l by simp
  moreover have "\<forall>j < length xs. xs' ! j =
             (if od + i \<le> int j \<and> int j \<le> od + hi
              then ys ! nat (int j - od + os + k) else xs ! j)"
  proof (intro allI impI)
    fix j assume j: "j < length xs"
    have "0 \<le> od + i" using p by simp
    then show "xs' ! j = (if od + i \<le> int j \<and> int j \<le> od + hi
              then ys ! nat (int j - od + os + k) else xs ! j)"
      using nn j le
      by (cases "int j = od + i") (auto simp: nth_list_update algebra_simps)
  qed
  ultimately show ?case by blast
qed

text \<open>A copying loop that returns has run its counter past the bound.\<close>

lemma copy_loop_exit:
  assumes "copy_loop h dst src k i hi = Some r"
  shows "is_int i \<longrightarrow> (\<forall>h' i'. r = Ok (h', i') \<longrightarrow> hi < i' \<and> is_int i')"
proof (rule copy_loop.raw_induct
    [where P = "\<lambda>h dst src k i hi r.
         is_int i \<longrightarrow> (\<forall>h' i'. r = Ok (h', i') \<longrightarrow> hi < i' \<and> is_int i')",
      OF _ assms])
  fix f :: "'a heap \<Rightarrow> ptr \<Rightarrow> ptr \<Rightarrow> int \<Rightarrow> int \<Rightarrow> int \<Rightarrow> ('a heap \<times> int) result option"
    and h dst src k i hi r
  assume ih: "\<And>h dst src k i hi r. f h dst src k i hi = Some r \<Longrightarrow>
      is_int i \<longrightarrow> (\<forall>h' i'. r = Ok (h', i') \<longrightarrow> hi < i' \<and> is_int i')"
    and e: "(if i \<le> hi then
        (case load h src (wrap (i + k)) of
           Ok v \<Rightarrow>
             (case store h dst i v of
                Ok h' \<Rightarrow> f h' dst src k (wrap (i + 1)) hi
              | Throw e \<Rightarrow> Some (Throw e)
              | Undefined \<Rightarrow> Some Undefined
              | Diverges \<Rightarrow> Some Diverges)
         | Throw e \<Rightarrow> Some (Throw e)
         | Undefined \<Rightarrow> Some Undefined
         | Diverges \<Rightarrow> Some Diverges)
      else Some (Ok (h, i))) = Some r"
  show "is_int i \<longrightarrow> (\<forall>h' i'. r = Ok (h', i') \<longrightarrow> hi < i' \<and> is_int i')"
  proof (cases "i \<le> hi")
    case False
    then show ?thesis using e by auto
  next
    case True
    show ?thesis
    proof (cases "load h src (wrap (i + k))")
      case (Ok v)
      show ?thesis
      proof (cases "store h dst i v")
        case st: (Ok h')
        then have "f h' dst src k (wrap (i + 1)) hi = Some r"
          using e True Ok by simp
        then show ?thesis using ih[of h' dst src k "wrap (i + 1)" hi r] is_int_wrap by blast
      qed (use e True Ok in auto)
    qed (use e True in auto)
  qed
qed

subsection \<open>Reading a well-formed array\<close>

lemma length_elems: "wf h a \<Longrightarrow> int (length (elems h a)) = maxdex a - mindex a + 1"
  by (auto simp: wf_def elems_def split: ptr.splits option.splits)

lemma index_wf:
  "wf h a \<Longrightarrow> mindex a \<le> i \<Longrightarrow> i \<le> maxdex a \<Longrightarrow>
   index h a i = Ok (elems h a ! nat (i - mindex a))"
  by (auto simp: wf_def elems_def index_def load_def split: ptr.splits option.splits)

lemma index_out: "i < mindex a \<or> maxdex a < i \<Longrightarrow> index h a i = Throw IndexException"
  by (auto simp: index_def)


lemma assign_at_wf:
  assumes "wf h a" and "mindex a \<le> i" and "i \<le> maxdex a"
  shows "\<exists>h'. assign_at h a i v = (Ok (), h') \<and> wf h' a \<and>
           elems h' a = (elems h a)[nat (i - mindex a) := v] \<and> index h' a i = Ok v"
  using assms
  by (cases "data a")
    (auto simp: assign_at_def store_def wf_def elems_def index_def load_def split: option.splits)

subsection \<open>InsertAt and Remove on a well-formed array\<close>

lemma InsertAt_wf:
  assumes w: "wf h a" and lo: "mindex a \<le> n" and hi: "n \<le> maxdex a + 1"
    and top: "maxdex a + 1 < INT_MAX" and bot: "INT_MIN < n"
    and room: "maxdex a - mindex a + 1 < INT_MAX"
  shows "InsertAt h a t n =
     (Ok n,
      h\<lparr>blocks := (release (blocks h) (data a))
            (lim h \<mapsto> take (nat (n - mindex a)) (elems h a) @ t # drop (nat (n - mindex a)) (elems h a)),
        lim := Suc (lim h)\<rparr>,
      a\<lparr>maxdex := maxdex a + 1, data := Ptr (lim h) (- mindex a)\<rparr>)"
proof (cases "data a")
  case Null
  then have e: "maxdex a = mindex a - 1" using w by (simp add: wf_def)
  then have n: "n = mindex a" using lo hi by simp
  have wr: "wrap (mindex a) = mindex a" "wrap (mindex a - 1) = mindex a - 1"
    "wrap (mindex a + 1) = mindex a + 1" "wrap 0 = 0" "wrap 1 = 1"
    using top bot e n by (simp_all add: wrap_id is_int_def)
  show ?thesis
    using Null e n wr
    by (simp add: InsertAt_def new_array_def copy_loop_empty store_def elems_def release_def
        returned_def fresh_block_def)
next
  case (Ptr b off)
  define m where "m = mindex a"
  define M where "M = maxdex a"
  define nb where "nb = lim h"
  from Ptr w obtain xs where
    off: "off = - m" and mM: "m \<le> M" and b: "b < nb" and xs: "blocks h b = Some xs"
    and len: "int (length xs) = M - m + 1"
    by (auto simp: wf_def m_def M_def nb_def split: option.splits)
  have tp: "M + 1 < INT_MAX" and bt: "INT_MIN < n" and rm: "M - m + 1 < INT_MAX"
    and im: "is_int m" "is_int M"
    using top bot room w by (simp_all add: m_def M_def wf_def)
  have lo': "m \<le> n" and hi': "n \<le> M + 1" using lo hi by (simp_all add: m_def M_def)
  have wr: "wrap (M + 1) = M + 1" "wrap (M + 1 - m) = M + 1 - m"
    "wrap (M + 1 - m + 1) = M + 1 - m + 1" "wrap (n - 1) = n - 1" "wrap (n + 1) = n + 1"
    using tp bt rm im mM lo' hi' by (simp_all add: wrap_id is_int_def)
  define xs0 :: "'a list" where "xs0 = fresh_block (fill h nb) (nat (M + 1 - m + 1))"
  define h1 where "h1 = h\<lparr>blocks := (blocks h)(nb \<mapsto> xs0), lim := Suc nb\<rparr>"
  have na: "new_array h (M + 1 - m + 1) m = Ok (Ptr nb (- m), h1)"
    using mM by (simp add: new_array_def h1_def xs0_def nb_def)
  have "\<exists>xs'. copy_loop h1 (Ptr nb (- m)) (Ptr b (- m)) 0 m (n - 1) =
            Some (Ok (h1\<lparr>blocks := (blocks h1)(nb \<mapsto> xs')\<rparr>, max m (n - 1 + 1))) \<and>
          length xs' = length xs0 \<and>
          (\<forall>j < length xs0. xs' ! j =
             (if - m + m \<le> int j \<and> int j \<le> - m + (n - 1)
              then xs ! nat (int j - (- m) + (- m) + 0) else xs0 ! j))"
    using b xs len lo' hi' mM tp bt im
    by (intro copy_loop_Ok) (auto simp: h1_def xs0_def is_int_def length_fresh_block)
  then obtain xs1 where
    c1: "copy_loop h1 (Ptr nb (- m)) (Ptr b (- m)) 0 m (n - 1) =
            Some (Ok (h1\<lparr>blocks := (blocks h1)(nb \<mapsto> xs1)\<rparr>, n))"
    and l1: "length xs1 = length xs0"
    and n1: "\<forall>j < length xs0. xs1 ! j = (if int j \<le> n - 1 - m then xs ! j else xs0 ! j)"
    using lo by (auto simp: max_def m_def)
  define h2 where "h2 = h1\<lparr>blocks := (blocks h1)(nb \<mapsto> xs1)\<rparr>"
  define xs2 where "xs2 = xs1[nat (n - m) := t]"
  define h3 where "h3 = h2\<lparr>blocks := (blocks h2)(nb \<mapsto> xs2)\<rparr>"
  have st: "store h2 (Ptr nb (- m)) n t = Ok h3"
    using lo hi l1 mM
    by (simp add: store_def h2_def h3_def xs2_def xs0_def m_def M_def length_fresh_block)
  have "\<exists>xs'. copy_loop h3 (Ptr nb (- m)) (Ptr b (- m)) (- 1) (n + 1) (M + 1) =
            Some (Ok (h3\<lparr>blocks := (blocks h3)(nb \<mapsto> xs')\<rparr>, max (n + 1) (M + 1 + 1))) \<and>
          length xs' = length xs2 \<and>
          (\<forall>j < length xs2. xs' ! j =
             (if - m + (n + 1) \<le> int j \<and> int j \<le> - m + (M + 1)
              then xs ! nat (int j - (- m) + (- m) + (- 1)) else xs2 ! j))"
    using b xs len lo' hi' mM l1 tp bt im
    by (intro copy_loop_Ok)
      (auto simp: h3_def h2_def h1_def xs2_def xs0_def is_int_def length_fresh_block)
  then obtain xs3 where
    c2: "copy_loop h3 (Ptr nb (- m)) (Ptr b (- m)) (- 1) (n + 1) (M + 1) =
            Some (Ok (h3\<lparr>blocks := (blocks h3)(nb \<mapsto> xs3)\<rparr>, M + 2))"
    and l3: "length xs3 = length xs2"
    and n3: "\<forall>j < length xs2. xs3 ! j =
             (if n + 1 - m \<le> int j \<and> int j \<le> M + 1 - m then xs ! nat (int j - 1) else xs2 ! j)"
    using hi by (auto simp: max_def M_def algebra_simps)
  define h4 where "h4 = h3\<lparr>blocks := (blocks h3)(nb \<mapsto> xs3)\<rparr>"
  have dl: "delete_array h4 (Ptr b (- m)) m = Ok (h4\<lparr>blocks := (blocks h4)(b := None)\<rparr>)"
    using b xs by (simp add: delete_array_def h4_def h3_def h2_def h1_def)
  have eq: "xs3 = take (nat (n - m)) xs @ t # drop (nat (n - m)) xs"
  proof (rule nth_equalityI)
    show "length xs3 = length (take (nat (n - m)) xs @ t # drop (nat (n - m)) xs)"
      using l3 l1 len lo hi mM by (simp add: xs2_def xs0_def m_def M_def length_fresh_block)
  next
    fix j assume j: "j < length xs3"
    then have j0: "j < length xs0" "j < length xs2" using l3 l1 by (simp_all add: xs2_def)
    have lx: "int j \<le> M + 1 - m" using j0(1) mM by (simp add: xs0_def length_fresh_block)
    define k where "k = nat (n - m)"
    have kn: "int k = n - m" using lo by (simp add: k_def m_def)
    have kl: "k \<le> length xs" using kn len hi by (simp add: M_def)
    consider "j < k" | "j = k" | "k < j" by linarith
    then show "xs3 ! j = (take (nat (n - m)) xs @ t # drop (nat (n - m)) xs) ! j"
    proof cases
      case 1
      then have "xs3 ! j = xs ! j"
        using n3 n1 j0 kn l1 by (simp add: xs2_def k_def[symmetric])
      then show ?thesis using 1 kl by (simp add: nth_append k_def[symmetric])
    next
      case 2
      then have "xs3 ! j = t"
        using n3 n1 j0 kn l1 by (simp add: xs2_def k_def[symmetric])
      then show ?thesis using 2 kl by (simp add: nth_append k_def[symmetric])
    next
      case 3
      then have a: "nat (int j - 1) = j - 1" by simp
      have "xs3 ! j = xs ! (j - 1)"
        using n3 j0 kn lx 3 a by simp
      moreover have "(take k xs @ t # drop k xs) ! j = xs ! (j - 1)"
      proof -
        from 3 obtain d where d: "j = Suc (k + d)" using less_imp_Suc_add by blast
        have "k + d < length xs" using d lx len by (simp add: )
        then show ?thesis using d kl by (simp add: nth_append)
      qed
      ultimately show ?thesis by (simp add: k_def[symmetric])
    qed
  qed
  have fin: "h4\<lparr>blocks := (blocks h4)(b := None)\<rparr> =
        h\<lparr>blocks := ((blocks h)(b := None))(nb \<mapsto> xs3), lim := Suc nb\<rparr>"
  proof -
    have "((blocks h)(nb \<mapsto> xs3))(b := None) = ((blocks h)(b := None))(nb \<mapsto> xs3)"
      using b by (intro fun_upd_twist) simp
    then show ?thesis by (simp add: h4_def h3_def h2_def h1_def)
  qed
  have "InsertAt h a t n =
      (Ok n, h4\<lparr>blocks := (blocks h4)(b := None)\<rparr>,
       a\<lparr>maxdex := M + 1, data := Ptr nb (- m)\<rparr>)"
    using Ptr off lo hi na c1 st c2 dl wr
    by (simp add: InsertAt_def returned_def h2_def[symmetric] h4_def[symmetric]
        m_def[symmetric] M_def[symmetric])
  then show ?thesis
    using Ptr xs unfolding fin eq
    by (simp add: elems_def release_def m_def M_def nb_def)
qed


lemma Remove_wf:
  assumes w: "wf h a" and lo: "mindex a \<le> n" and hi: "n \<le> maxdex a"
    and bot: "INT_MIN < maxdex a"
  shows "Remove h a n =
     (Ok (elems h a ! nat (n - mindex a)),
      (if mindex a < maxdex a
       then h\<lparr>blocks := (release (blocks h) (data a))
              (lim h \<mapsto> take (nat (n - mindex a)) (elems h a) @
                           drop (Suc (nat (n - mindex a))) (elems h a)),
              lim := Suc (lim h)\<rparr>
       else h\<lparr>blocks := release (blocks h) (data a)\<rparr>),
      a\<lparr>maxdex := maxdex a - 1,
        data := (if mindex a < maxdex a then Ptr (lim h) (- mindex a) else Null)\<rparr>)"
proof -
  define m where "m = mindex a"
  define M where "M = maxdex a"
  define nb where "nb = lim h"
  from w lo hi obtain b xs where
    d: "data a = Ptr b (- m)" and mM: "m \<le> M" and b: "b < nb" and xs: "blocks h b = Some xs"
    and len: "int (length xs) = M - m + 1"
    by (cases "data a") (auto simp: wf_def m_def M_def nb_def split: option.splits)
  have lo': "m \<le> n" and hi': "n \<le> M" using lo hi by (simp_all add: m_def M_def)
  have im: "is_int m" "is_int M" and bt: "INT_MIN < M" and rm: "M - m < INT_MAX"
    using w bot d by (simp_all add: m_def M_def wf_def)
  have wr: "wrap (M - 1) = M - 1" "wrap (M - 1 - m) = M - 1 - m"
    "wrap (M - 1 - m + 1) = M - 1 - m + 1"
    using im bt mM rm by (simp_all add: wrap_id is_int_def)
  have ld: "load h (Ptr b (- m)) n = Ok (xs ! nat (n - m))"
    using xs len lo hi by (simp add: load_def m_def M_def)
  show ?thesis
  proof (cases "m < M")
    case False
    then have mn: "M = m" "n = m" using mM lo hi by (simp_all add: m_def M_def)
    have dl: "delete_array h (Ptr b (- m)) m = Ok (h\<lparr>blocks := (blocks h)(b := None)\<rparr>)"
      using xs by (simp add: delete_array_def)
    show ?thesis
      using d xs ld dl mn wr
      by (simp add: Remove_def copy_loop_empty elems_def release_def returned_def
          m_def[symmetric] M_def[symmetric])
  next
    case True
    define xs0 :: "'a list" where "xs0 = fresh_block (fill h nb) (nat (M - 1 - m + 1))"
    define h1 where "h1 = h\<lparr>blocks := (blocks h)(nb \<mapsto> xs0), lim := Suc nb\<rparr>"
    have na: "new_array h (M - 1 - m + 1) m = Ok (Ptr nb (- m), h1)"
      using mM by (simp add: new_array_def h1_def xs0_def nb_def)
    have "\<exists>xs'. copy_loop h1 (Ptr nb (- m)) (Ptr b (- m)) 0 m (n - 1) =
            Some (Ok (h1\<lparr>blocks := (blocks h1)(nb \<mapsto> xs')\<rparr>, max m (n - 1 + 1))) \<and>
          length xs' = length xs0 \<and>
          (\<forall>j < length xs0. xs' ! j =
             (if - m + m \<le> int j \<and> int j \<le> - m + (n - 1)
              then xs ! nat (int j - (- m) + (- m) + 0) else xs0 ! j))"
      using b xs len lo' hi' mM im bt
      by (intro copy_loop_Ok) (auto simp: h1_def xs0_def is_int_def length_fresh_block)
    then obtain xs1 where
      c1: "copy_loop h1 (Ptr nb (- m)) (Ptr b (- m)) 0 m (n - 1) =
            Some (Ok (h1\<lparr>blocks := (blocks h1)(nb \<mapsto> xs1)\<rparr>, n))"
      and l1: "length xs1 = length xs0"
      and n1: "\<forall>j < length xs0. xs1 ! j = (if int j \<le> n - 1 - m then xs ! j else xs0 ! j)"
      using lo by (auto simp: max_def m_def)
    define h2 where "h2 = h1\<lparr>blocks := (blocks h1)(nb \<mapsto> xs1)\<rparr>"
    have "\<exists>xs'. copy_loop h2 (Ptr nb (- m)) (Ptr b (- m)) 1 n (M - 1) =
            Some (Ok (h2\<lparr>blocks := (blocks h2)(nb \<mapsto> xs')\<rparr>, max n (M - 1 + 1))) \<and>
          length xs' = length xs1 \<and>
          (\<forall>j < length xs1. xs' ! j =
             (if - m + n \<le> int j \<and> int j \<le> - m + (M - 1)
              then xs ! nat (int j - (- m) + (- m) + 1) else xs1 ! j))"
      using b xs len lo' hi' mM l1 im bt
      by (intro copy_loop_Ok) (auto simp: h2_def h1_def xs0_def is_int_def length_fresh_block)
    then obtain xs3 where
      c2: "copy_loop h2 (Ptr nb (- m)) (Ptr b (- m)) 1 n (M - 1) =
            Some (Ok (h2\<lparr>blocks := (blocks h2)(nb \<mapsto> xs3)\<rparr>, M))"
      and l3: "length xs3 = length xs1"
      and n3: "\<forall>j < length xs1. xs3 ! j =
             (if n - m \<le> int j \<and> int j \<le> M - 1 - m then xs ! nat (int j + 1) else xs1 ! j)"
      using hi by (auto simp: max_def M_def algebra_simps)
    define h4 where "h4 = h2\<lparr>blocks := (blocks h2)(nb \<mapsto> xs3)\<rparr>"
    have dl: "delete_array h4 (Ptr b (- m)) m = Ok (h4\<lparr>blocks := (blocks h4)(b := None)\<rparr>)"
      using b xs by (simp add: delete_array_def h4_def h2_def h1_def)
    have eq: "xs3 = take (nat (n - m)) xs @ drop (Suc (nat (n - m))) xs"
    proof (rule nth_equalityI)
      show "length xs3 = length (take (nat (n - m)) xs @ drop (Suc (nat (n - m))) xs)"
        using l3 l1 len lo hi mM True by (simp add: xs0_def m_def M_def length_fresh_block)
    next
      fix j assume j: "j < length xs3"
      then have j0: "j < length xs0" "j < length xs1" using l3 l1 by simp_all
      have lx: "int j \<le> M - 1 - m" using j0(1) True by (simp add: xs0_def length_fresh_block)
      define k where "k = nat (n - m)"
      have kn: "int k = n - m" using lo by (simp add: k_def m_def)
      have kl: "k < length xs" using kn len hi by (simp add: M_def)
      consider "j < k" | "k \<le> j" by linarith
      then show "xs3 ! j = (take (nat (n - m)) xs @ drop (Suc (nat (n - m))) xs) ! j"
      proof cases
        case 1
        then have "xs3 ! j = xs ! j"
          using n3 n1 j0 kn l1 by simp
        then show ?thesis using 1 kl by (simp add: nth_append k_def[symmetric])
      next
        case 2
        then have a: "nat (int j + 1) = Suc j" by simp
        have "xs3 ! j = xs ! Suc j"
          using n3 j0 kn lx 2 a by simp
        moreover have "(take k xs @ drop (Suc k) xs) ! j = xs ! Suc j"
        proof -
          from 2 obtain d where d: "j = k + d" using le_Suc_ex by blast
          have "Suc (k + d) < length xs" using d lx len by simp
          then show ?thesis using d kl by (simp add: nth_append)
        qed
        ultimately show ?thesis by (simp add: k_def[symmetric])
      qed
    qed
    have fin: "h4\<lparr>blocks := (blocks h4)(b := None)\<rparr> =
        h\<lparr>blocks := ((blocks h)(b := None))(nb \<mapsto> xs3), lim := Suc nb\<rparr>"
    proof -
      have "((blocks h)(nb \<mapsto> xs3))(b := None) = ((blocks h)(b := None))(nb \<mapsto> xs3)"
        using b by (intro fun_upd_twist) simp
      then show ?thesis by (simp add: h4_def h2_def h1_def)
    qed
    have "Remove h a n =
      (Ok (xs ! nat (n - m)), h4\<lparr>blocks := (blocks h4)(b := None)\<rparr>,
       a\<lparr>maxdex := M - 1, data := Ptr nb (- m)\<rparr>)"
      using d lo hi ld na c1 c2 dl True wr
      by (simp add: Remove_def returned_def h2_def[symmetric] h4_def[symmetric]
          m_def[symmetric] M_def[symmetric])
    then show ?thesis
      using d xs True unfolding fin eq
      by (simp add: elems_def release_def m_def M_def nb_def)
  qed
qed




lemma Remove_obs:
  assumes "wf h a" and "mindex a \<le> n" and "n \<le> maxdex a" and "INT_MIN < maxdex a"
    and "Remove h a n = (r, h', a')"
  shows "r = Ok (elems h a ! nat (n - mindex a))" and "wf h' a'"
    and "mindex a' = mindex a" and "maxdex a' = maxdex a - 1"
    and "elems h' a' =
           take (nat (n - mindex a)) (elems h a) @ drop (Suc (nat (n - mindex a))) (elems h a)"
    and "\<exists>b. data a = Ptr b (- mindex a) \<and> blocks h' b = None"
    and "maxdex a' < mindex a' \<Longrightarrow> data a' = Null \<and> blocks h' = release (blocks h) (data a)"
proof -
  note e = Remove_wf[OF assms(1-4)]
  have l: "int (length (elems h a)) = maxdex a - mindex a + 1"
    using assms(1) by (rule length_elems)
  obtain b where d: "data a = Ptr b (- mindex a)" and b: "b < lim h"
    using assms(1-3) by (cases "data a") (auto simp: wf_def)
  show "r = Ok (elems h a ! nat (n - mindex a))" using e assms(5) by simp
  show "mindex a' = mindex a" using e assms(5) by auto
  show "maxdex a' = maxdex a - 1" using e assms(5) by auto
  show "elems h' a' =
           take (nat (n - mindex a)) (elems h a) @ drop (Suc (nat (n - mindex a))) (elems h a)"
  proof (cases "mindex a < maxdex a")
    case True
    then show ?thesis using e assms(5) by (auto simp: elems_def)
  next
    case False
    then have "length (elems h a) = 1" "n = mindex a" using l assms(2,3) by simp_all
    then show ?thesis using e assms(5) False by (auto simp: elems_def)
  qed
  have i: "is_int (mindex a)" "is_int (maxdex a)" "maxdex a - mindex a < INT_MAX"
    using assms(1) d by (simp_all add: wf_def)
  show "wf h' a'" using e assms(2-5) l i by (auto simp: wf_def is_int_def)
  show "\<exists>b. data a = Ptr b (- mindex a) \<and> blocks h' b = None"
    using e assms(5) d b by (auto simp: release_def)
  show "data a' = Null \<and> blocks h' = release (blocks h) (data a)"
    if "maxdex a' < mindex a'"
    using e assms(5) that by (auto split: if_splits)
qed

lemma nth_remove_at:
  assumes "k < length xs" and "Suc j < length xs"
  shows "(take k xs @ drop (Suc k) xs) ! j = (if j < k then xs ! j else xs ! Suc j)"
proof (cases "j < k")
  case True
  then show ?thesis using assms by (simp add: nth_append)
next
  case False
  then obtain d where d: "j = k + d" using le_Suc_ex[of k j] by auto
  then have "Suc (k + d) < length xs" using assms by simp
  then show ?thesis using d assms by (simp add: nth_append)
qed

subsection \<open>Whole-array copies, other arrays, equality and the constructors\<close>

lemma copy_loop_all:
  assumes "blocks h bd = Some xs" and "blocks h bs = Some ys" and "bd \<noteq> bs"
    and "int (length xs) = M - m + 1" and "int (length ys) = M - m + 1"
    and "is_int m" and "M < INT_MAX"
  shows "copy_loop h (Ptr bd (- m)) (Ptr bs (- m)) 0 m M =
           Some (Ok (h\<lparr>blocks := (blocks h)(bd \<mapsto> ys)\<rparr>, M + 1))"
proof -
  have mM: "m \<le> M + 1" using assms(4) by simp
  have "\<exists>xs'. copy_loop h (Ptr bd (- m)) (Ptr bs (- m)) 0 m M =
            Some (Ok (h\<lparr>blocks := (blocks h)(bd \<mapsto> xs')\<rparr>, max m (M + 1))) \<and>
          length xs' = length xs \<and>
          (\<forall>j < length xs. xs' ! j =
             (if - m + m \<le> int j \<and> int j \<le> - m + M
              then ys ! nat (int j - (- m) + (- m) + 0) else xs ! j))"
    using assms by (intro copy_loop_Ok) (auto simp: is_int_def)
  then obtain xs' where
    c: "copy_loop h (Ptr bd (- m)) (Ptr bs (- m)) 0 m M =
            Some (Ok (h\<lparr>blocks := (blocks h)(bd \<mapsto> xs')\<rparr>, M + 1))"
    and l: "length xs' = length xs"
    and n: "\<forall>j < length xs. xs' ! j = (if int j \<le> M - m then ys ! j else xs ! j)"
    using mM by (auto simp: max_def)
  have "xs' = ys"
  proof (rule nth_equalityI)
    show "length xs' = length ys" using l assms(4,5) by simp
  next
    fix j assume "j < length xs'"
    then have "j < length xs" "int j \<le> M - m" using l assms(4) by simp_all
    then show "xs' ! j = ys ! j" using n by simp
  qed
  then show ?thesis using c by simp
qed

lemma wf_frame:
  assumes "wf h c" and "\<And>b off. data c = Ptr b off \<Longrightarrow> blocks h' b = blocks h b"
    and "lim h \<le> lim h'"
  shows "wf h' c" and "elems h' c = elems h c"
  using assms by (auto simp: wf_def elems_def split: ptr.splits option.splits)

lemma index_frame:
  assumes "\<And>b off. data c = Ptr b off \<Longrightarrow> blocks h' b = blocks h b"
  shows "index h' c i = index h c i"
  using assms by (auto simp: index_def load_def split: ptr.splits)



lemma Array_len_wf:
  "int len \<le> INT_MAX \<Longrightarrow>
   \<exists>a h'. Array_len h len = (Ok a, h') \<and> wf h' a \<and> mindex a = 1 \<and> maxdex a = int len"
  by (auto simp: Array_len_def new_array_def wf_def wrap_id is_int_def length_fresh_block)

lemma Array_range_wf:
  "is_int lo \<Longrightarrow> is_int hi \<Longrightarrow> lo \<le> hi + 1 \<Longrightarrow> hi < INT_MAX \<Longrightarrow> hi - lo < INT_MAX \<Longrightarrow>
   \<exists>a h'. Array_range h lo hi = (Ok a, h') \<and> wf h' a \<and> mindex a = lo \<and> maxdex a = hi"
  by (auto simp: Array_range_def new_array_def wf_def wrap_id is_int_def length_fresh_block)

lemma Array_copy_wf:
  assumes "wf h a" and "maxdex a < INT_MAX"
  shows "\<exists>c h'. Array_copy h a = (Ok c, h') \<and> wf h' c \<and> wf h' a \<and> separate a c \<and>
           mindex c = mindex a \<and> maxdex c = maxdex a \<and>
           elems h' c = elems h a \<and> elems h' a = elems h a"
proof (cases "data a")
  case Null
  then have "maxdex a < mindex a" using assms by (simp add: wf_def)
  then show ?thesis
    using Null assms
    by (auto simp: Array_copy_def copy_loop_empty wf_def elems_def separate_def returned_def)
next
  case (Ptr b off)
  define m where "m = mindex a"
  define M where "M = maxdex a"
  define nb where "nb = lim h"
  from Ptr assms obtain xs where
    off: "off = - m" and mM: "m \<le> M" and b: "b < nb" and xs: "blocks h b = Some xs"
    and len: "int (length xs) = M - m + 1"
    by (auto simp: wf_def m_def M_def nb_def split: option.splits)
  have im: "is_int m" "is_int M" and rm: "M - m < INT_MAX" and tp: "M < INT_MAX"
    using assms Ptr by (simp_all add: m_def M_def wf_def)
  have wr: "wrap (M - m) = M - m" "wrap (M - m + 1) = M - m + 1"
    using im rm mM by (simp_all add: wrap_id is_int_def)
  define xs0 :: "'a list" where "xs0 = fresh_block (fill h nb) (nat (M - m + 1))"
  define h1 where "h1 = h\<lparr>blocks := (blocks h)(nb \<mapsto> xs0), lim := Suc nb\<rparr>"
  have na: "new_array h (M - m + 1) m = Ok (Ptr nb (- m), h1)"
    using mM by (simp add: new_array_def h1_def xs0_def nb_def)
  have c: "copy_loop h1 (Ptr nb (- m)) (Ptr b (- m)) 0 m M =
             Some (Ok (h1\<lparr>blocks := (blocks h1)(nb \<mapsto> xs)\<rparr>, M + 1))"
    using b xs len mM im tp
    by (intro copy_loop_all[where xs = xs0]) (auto simp: h1_def xs0_def length_fresh_block)
  have "Array_copy h a =
          (Ok \<lparr>mindex = m, maxdex = M, data = Ptr nb (- m)\<rparr>, h1\<lparr>blocks := (blocks h1)(nb \<mapsto> xs)\<rparr>)"
    using Ptr off mM na c wr
    by (simp add: Array_copy_def returned_def m_def[symmetric] M_def[symmetric])
  then show ?thesis
    using Ptr off b xs len mM assms(1)
    by (auto simp: wf_def elems_def separate_def h1_def m_def M_def nb_def)
qed

subsection \<open>Other arrays are left alone; the assignment\<close>



lemma assign_reuse:
  assumes wt: "wf h this" and wa: "wf h a" and sep: "separate this a"
    and d: "data this = Ptr b off"
    and same: "mindex this = mindex a" "maxdex this = maxdex a"
    and top: "maxdex a < INT_MAX"
  shows "assign h this a = (Ok (), h\<lparr>blocks := (blocks h)(b \<mapsto> elems h a)\<rparr>, this)"
proof -
  define m where "m = mindex a"
  define M where "M = maxdex a"
  from d wt same obtain xs where
    off: "off = - m" and mM: "m \<le> M" and xs: "blocks h b = Some xs"
    and len: "int (length xs) = M - m + 1"
    by (auto simp: wf_def m_def M_def split: option.splits)
  from wa mM obtain ba ys where
    da: "data a = Ptr ba (- m)" and ys: "blocks h ba = Some ys"
    and lena: "int (length ys) = M - m + 1"
    by (cases "data a") (auto simp: wf_def m_def M_def split: option.splits)
  have ne: "b \<noteq> ba" using sep d da by (simp add: separate_def)
  have im: "is_int m" and tp: "M < INT_MAX" using wa top by (simp_all add: wf_def m_def M_def)
  have c: "copy_loop h (Ptr b (- m)) (Ptr ba (- m)) 0 m M =
             Some (Ok (h\<lparr>blocks := (blocks h)(b \<mapsto> ys)\<rparr>, M + 1))"
    using xs ys ne len lena im tp by (rule copy_loop_all)
  show ?thesis
    using d off da ys same c
    by (simp add: assign_def elems_def returned_def m_def[symmetric] M_def[symmetric])
qed

lemma assign_fresh:
  assumes wt: "wf h this" and wa: "wf h a" and sep: "separate this a"
    and diff: "data this = Null \<or> mindex this \<noteq> mindex a \<or> maxdex this \<noteq> maxdex a"
    and ne: "mindex a \<le> maxdex a" and top: "maxdex a < INT_MAX"
  shows "assign h this a =
           (Ok (),
            h\<lparr>blocks := (release (blocks h) (data this))(lim h \<mapsto> elems h a),
              lim := Suc (lim h)\<rparr>,
            \<lparr>mindex = mindex a, maxdex = maxdex a, data = Ptr (lim h) (- mindex a)\<rparr>)"
proof -
  define m where "m = mindex a"
  define M where "M = maxdex a"
  define nb where "nb = lim h"
  from wa ne obtain ba ys where
    da: "data a = Ptr ba (- m)" and ys: "blocks h ba = Some ys" and ba: "ba < nb"
    and lena: "int (length ys) = M - m + 1"
    by (cases "data a") (auto simp: wf_def m_def M_def nb_def split: option.splits)
  have im: "is_int m" "is_int M" and tp: "M < INT_MAX" and rm: "M - m < INT_MAX"
    and mM: "m \<le> M"
    using wa top ne da by (simp_all add: wf_def m_def M_def)
  have wr: "wrap (M - m) = M - m" "wrap (M - m + 1) = M - m + 1"
    using im rm mM by (simp_all add: wrap_id is_int_def)
  define h1 where "h1 = h\<lparr>blocks := release (blocks h) (data this)\<rparr>"
  have dl: "(if data this \<noteq> Null then delete_array h (data this) (mindex this) else Ok h) = Ok h1"
    using wt by (cases "data this")
      (auto simp: h1_def release_def delete_array_def wf_def split: option.splits)
  have ys1: "blocks h1 ba = Some ys"
    using ys sep da by (cases "data this") (auto simp: h1_def release_def separate_def)
  have l1: "lim h1 = nb" by (simp add: h1_def nb_def)
  define xs0 :: "'a list" where "xs0 = fresh_block (fill h nb) (nat (M - m + 1))"
  define h2 where "h2 = h1\<lparr>blocks := (blocks h1)(nb \<mapsto> xs0), lim := Suc nb\<rparr>"
  have na: "new_array h1 (M - m + 1) m = Ok (Ptr nb (- m), h2)"
    using mM l1 by (simp add: new_array_def h2_def xs0_def h1_def nb_def)
  have c: "copy_loop h2 (Ptr nb (- m)) (Ptr ba (- m)) 0 m M =
             Some (Ok (h2\<lparr>blocks := (blocks h2)(nb \<mapsto> ys)\<rparr>, M + 1))"
    using ba ys1 lena mM im tp
    by (intro copy_loop_all[where xs = xs0]) (auto simp: h2_def xs0_def length_fresh_block)
  have fin: "h2\<lparr>blocks := (blocks h2)(nb \<mapsto> ys)\<rparr> =
      h\<lparr>blocks := (release (blocks h) (data this))(nb \<mapsto> ys), lim := Suc nb\<rparr>"
    by (simp add: h2_def h1_def)
  have g: "data this = Null \<or> (data this \<noteq> Null \<and> (mindex this \<noteq> m \<or> maxdex this \<noteq> M))"
    using diff by (auto simp: m_def M_def)
  have "assign h this a =
          (Ok (), h2\<lparr>blocks := (blocks h2)(nb \<mapsto> ys)\<rparr>,
           \<lparr>mindex = m, maxdex = M, data = Ptr nb (- m)\<rparr>)"
    using g dl na c mM da wr
    by (simp add: assign_def returned_def m_def[symmetric] M_def[symmetric])
  then show ?thesis
    using da ys unfolding fin by (simp add: elems_def m_def M_def nb_def)
qed

lemma assign_empty:
  assumes wt: "wf h this" and wa: "wf h a"
    and e: "maxdex a < mindex a"
  shows "assign h this a =
           (Ok (), h\<lparr>blocks := release (blocks h) (data this)\<rparr>,
            \<lparr>mindex = mindex a, maxdex = maxdex a, data = Null\<rparr>)"
proof -
  define h1 where "h1 = h\<lparr>blocks := release (blocks h) (data this)\<rparr>"
  have dl: "(if data this \<noteq> Null then delete_array h (data this) (mindex this) else Ok h) = Ok h1"
    using wt by (cases "data this")
      (auto simp: h1_def release_def delete_array_def wf_def split: option.splits)
  have g: "data this = Null \<or>
           (data this \<noteq> Null \<and> (mindex this \<noteq> mindex a \<or> maxdex this \<noteq> maxdex a))"
    using wt e by (cases "data this") (auto simp: wf_def)
  show ?thesis
    using g dl e by (simp add: assign_def copy_loop_empty h1_def returned_def)
qed

lemma assign_obs:
  assumes wt: "wf h this" and wa: "wf h a" and sep: "separate this a"
    and top: "maxdex a < INT_MAX"
    and r: "assign h this a = (r, h', this')"
  shows "r = Ok ()" and "mindex this' = mindex a" and "maxdex this' = maxdex a"
    and "wf h' this'" and "elems h' this' = elems h a"
    and "wf h' a" and "elems h' a = elems h a" and "separate this' a"
proof -
  have la: "int (length (elems h a)) = maxdex a - mindex a + 1"
    using wa by (rule length_elems)
  have all: "r = Ok () \<and> mindex this' = mindex a \<and> maxdex this' = maxdex a \<and>
      wf h' this' \<and> elems h' this' = elems h a \<and> separate this' a \<and> lim h \<le> lim h' \<and>
      (\<forall>b off. data a = Ptr b off \<longrightarrow> blocks h' b = blocks h b)"
  proof (cases "maxdex a < mindex a")
    case True
    have "data a = Null \<and> maxdex a = mindex a - 1 \<and> is_int (mindex a) \<and>
        is_int (mindex a - 1)"
      using wa True by (cases "data a") (auto simp: wf_def)
    then show ?thesis
      using assign_empty[OF wt wa True] r True
      by (auto simp: wf_def elems_def separate_def)
  next
    case False
    then obtain ba where da: "data a = Ptr ba (- mindex a)" and ba: "ba < lim h"
      and ia: "is_int (mindex a)" "is_int (maxdex a)" "maxdex a - mindex a < INT_MAX"
      using wa by (cases "data a") (auto simp: wf_def)
    show ?thesis
    proof (cases "data this \<noteq> Null \<and> mindex this = mindex a \<and> maxdex this = maxdex a")
      case True
      then obtain b off where d: "data this = Ptr b off" by (cases "data this") auto
      have ne: "b \<noteq> ba" using sep d da by (simp add: separate_def)
      show ?thesis
        using assign_reuse[OF wt wa sep d _ _ top] True r wt d da ne la sep
        by (auto simp: wf_def elems_def)
    next
      case F: False
      then have diff: "data this = Null \<or> mindex this \<noteq> mindex a \<or> maxdex this \<noteq> maxdex a"
        by auto
      have ne: "mindex a \<le> maxdex a" using False by simp
      have "blocks h' ba = blocks h ba"
        using assign_fresh[OF wt wa sep diff ne top] r sep da ba
        by (cases "data this") (auto simp: release_def separate_def)
      then show ?thesis
        using assign_fresh[OF wt wa sep diff ne top] r da ba la ne ia
        by (auto simp: wf_def elems_def separate_def)
    qed
  qed
  then have f: "\<And>b off. data a = Ptr b off \<Longrightarrow> blocks h' b = blocks h b"
    and l: "lim h \<le> lim h'" by blast+
  show "wf h' a" and "elems h' a = elems h a" using wf_frame[OF wa f l] by simp_all
  show "r = Ok ()" and "mindex this' = mindex a" and "maxdex this' = maxdex a"
    and "wf h' this'" and "elems h' this' = elems h a" and "separate this' a"
    using all by simp_all
qed

subsection \<open>The loop of Find\<close>

lemma load_index: "mindex a \<le> i \<Longrightarrow> i \<le> maxdex a \<Longrightarrow> load h (data a) i = index h a i"
  by (simp add: index_def)

lemma Find_loop_wf:
  assumes "wf h a" and "mindex a \<le> i" and "i \<le> maxdex a + 1"
    and "maxdex a < INT_MAX \<or>
         (\<exists>j. i \<le> j \<and> j \<le> maxdex a \<and> \<not> ne (elems h a ! nat (j - mindex a)) t)"
  shows "\<exists>j. Find_loop ne h a t i = Some (Ok j) \<and> i \<le> j \<and> j \<le> maxdex a + 1 \<and>
           (\<forall>l. i \<le> l \<and> l < j \<longrightarrow> ne (elems h a ! nat (l - mindex a)) t) \<and>
           (j \<le> maxdex a \<longrightarrow> \<not> ne (elems h a ! nat (j - mindex a)) t)"
  using assms(2-4)
proof (induction "nat (maxdex a + 1 - i)" arbitrary: i)
  case 0
  then have "maxdex a < i" by simp
  then show ?case using "0.prems" by (subst Find_loop.simps) auto
next
  case (Suc n)
  then have le: "i \<le> maxdex a" by simp
  have ld: "load h (data a) i = Ok (elems h a ! nat (i - mindex a))"
    using load_index[OF Suc.prems(1) le, of h] index_wf[OF assms(1) Suc.prems(1) le] by simp
  show ?case
  proof (cases "ne (elems h a ! nat (i - mindex a)) t")
    case False
    then show ?thesis using le ld by (subst Find_loop.simps) auto
  next
    case True
    have rest: "maxdex a < INT_MAX \<or>
         (\<exists>j. i + 1 \<le> j \<and> j \<le> maxdex a \<and> \<not> ne (elems h a ! nat (j - mindex a)) t)"
    proof (cases "maxdex a < INT_MAX")
      case False
      then obtain j where j: "i \<le> j" "j \<le> maxdex a"
        "\<not> ne (elems h a ! nat (j - mindex a)) t"
        using Suc.prems(3) by blast
      then have "j \<noteq> i" using True by auto
      then show ?thesis using j by (intro disjI2 exI[of _ j]) simp
    qed simp
    have "i < INT_MAX"
    proof (cases "maxdex a < INT_MAX")
      case True
      then show ?thesis using le by simp
    next
      case False
      then obtain j where "i + 1 \<le> j" "j \<le> maxdex a" using rest by blast
      moreover have "maxdex a \<le> INT_MAX" using assms(1) by (simp add: wf_def is_int_def)
      ultimately show ?thesis by simp
    qed
    then have w1: "wrap (i + 1) = i + 1"
      using Suc.prems(1) assms(1) by (simp add: wrap_id is_int_def wf_def)
    have n: "n = nat (maxdex a + 1 - (i + 1))" using Suc.hyps(2) by simp
    have "\<exists>j. Find_loop ne h a t (i + 1) = Some (Ok j) \<and> i + 1 \<le> j \<and> j \<le> maxdex a + 1 \<and>
           (\<forall>l. i + 1 \<le> l \<and> l < j \<longrightarrow> ne (elems h a ! nat (l - mindex a)) t) \<and>
           (j \<le> maxdex a \<longrightarrow> \<not> ne (elems h a ! nat (j - mindex a)) t)"
      using Suc.prems(1) le rest by (intro Suc.hyps(1)[OF n]) simp_all
    then obtain j where j: "Find_loop ne h a t (i + 1) = Some (Ok j)" "i + 1 \<le> j"
      "j \<le> maxdex a + 1"
      "\<forall>l. i + 1 \<le> l \<and> l < j \<longrightarrow> ne (elems h a ! nat (l - mindex a)) t"
      "j \<le> maxdex a \<longrightarrow> \<not> ne (elems h a ! nat (j - mindex a)) t"
      by blast
    have "Find_loop ne h a t i = Some (Ok j)"
      using le ld True j(1) w1 by (subst Find_loop.simps) simp
    moreover have "\<forall>l. i \<le> l \<and> l < j \<longrightarrow> ne (elems h a ! nat (l - mindex a)) t"
    proof (intro allI impI)
      fix l assume "i \<le> l \<and> l < j"
      then consider "l = i" | "i + 1 \<le> l \<and> l < j" by linarith
      then show "ne (elems h a ! nat (l - mindex a)) t" using True j(4) by cases auto
    qed
    ultimately show ?thesis using j by auto
  qed
qed

subsection \<open>The example states\<close>

lemma ex_wf: "wf ex_heap ex_array"
  by (simp add: wf_def is_int_def ex_heap_def ex_array_def)

lemma ex_index:
  "index ex_heap ex_array 1 = Ok 10" "index ex_heap ex_array 2 = Ok 20"
  "index ex_heap ex_array 3 = Ok 30"
  by (simp_all add: index_def load_def ex_heap_def ex_array_def)

lemma ex_bounds: "First ex_array = 1" "Last ex_array = 3" "Length ex_array = 3"
  by (simp_all add: First_def Last_def Length_def ex_array_def wrap_def)

text \<open>The example state is what \<open>Array(1, 3)\<close> and three assignments leave.\<close>

lemma ex_array_constructed:
  "case Array_range empty_heap 1 3 of
     (r, h0) \<Rightarrow> r = Ok ex_array \<and>
       (case assign_at h0 ex_array 1 10 of
          (r1, h1) \<Rightarrow> r1 = Ok () \<and>
            (case assign_at h1 ex_array 2 20 of
               (r2, h2) \<Rightarrow> r2 = Ok () \<and> assign_at h2 ex_array 3 30 = (Ok (), ex_heap)))"
  by (simp add: Array_range_def new_array_def assign_at_def store_def empty_heap_def
      ex_array_def ex_heap_def fresh_block_def wrap_def eval_nat_numeral)

lemma ex_copy_constructed: "Array_copy ex_heap ex_array = (Ok ex_copy, ex_heap2)"
  by (simp add: Array_copy_def new_array_def copy_loop.simps load_def store_def returned_def
      ex_heap_def ex_array_def ex_copy_def ex_heap2_def fresh_block_def wrap_def
      eval_nat_numeral)


lemma ex_wf3:
  "wf ex_heap3 ex_array" "wf ex_heap3 ex_same" "wf ex_heap3 ex_other"
  "separate ex_same ex_array" "separate ex_other ex_array"
  by (simp_all add: wf_def is_int_def separate_def ex_heap3_def ex_array_def ex_same_def
      ex_other_def)


lemma full_constructed: "Array_len empty_heap 2147483647 = (Ok full_array, full_heap)"
  by (simp add: Array_len_def new_array_def empty_heap_def full_array_def full_heap_def
      wrap_def)

lemma none_constructed: "Array_len full_heap 0 = (Ok none_array, full_heap)"
  by (simp add: Array_len_def none_array_def wrap_def)

lemma top_constructed:
  "case Array_range empty_heap 2147483646 2147483646 of
     (r, h0) \<Rightarrow> r = Ok top_array \<and> assign_at h0 top_array 2147483646 7 = (Ok (), top_heap)"
  by (simp add: Array_range_def new_array_def assign_at_def store_def empty_heap_def
      top_array_def top_heap_def fresh_block_def wrap_def)

lemma low_constructed:
  "case Array_range empty_heap INT_MIN INT_MIN of
     (r, h0) \<Rightarrow> r = Ok low_array \<and> assign_at h0 low_array INT_MIN 7 = (Ok (), low_heap)"
  by (simp add: Array_range_def new_array_def assign_at_def store_def empty_heap_def
      low_array_def low_heap_def fresh_block_def wrap_def)

lemma low3_constructed:
  "case Array_range empty_heap INT_MIN (- 2147483646) of
     (r, h0) \<Rightarrow> r = Ok low3_array \<and>
       (case assign_at h0 low3_array INT_MIN 1 of
          (r1, h1) \<Rightarrow> r1 = Ok () \<and>
            (case assign_at h1 low3_array (- 2147483647) 2 of
               (r2, h2) \<Rightarrow> r2 = Ok () \<and>
                 assign_at h2 low3_array (- 2147483646) 3 = (Ok (), low3_heap)))"
  by (simp add: Array_range_def new_array_def assign_at_def store_def empty_heap_def
      low3_array_def low3_heap_def fresh_block_def wrap_def eval_nat_numeral)

lemma full_wf: "wf full_heap full_array" "wf full_heap none_array" "separate none_array full_array"
  by (simp_all add: wf_def is_int_def separate_def full_heap_def full_array_def none_array_def
      length_fresh_block)

lemma wide_constructed: "Array_range empty_heap (- 5) 2147483641 = (Ok wide_array, wide_heap)"
  by (simp add: Array_range_def new_array_def empty_heap_def wide_array_def wide_heap_def
      wrap_def)



lemma low_wf: "wf low_heap low_array" "wf low3_heap low3_array"
  by (simp_all add: wf_def is_int_def low_heap_def low_array_def low3_heap_def low3_array_def)

lemma nan_constructed:
  "Array_copy \<lparr>blocks = [0 \<mapsto> [NaN]], lim = 1, fill = (\<lambda>b j. Num 0)\<rparr> nan_array =
     (Ok nan_copy, nan_heap)"
  by (simp add: Array_copy_def new_array_def copy_loop.simps load_def store_def returned_def
      nan_array_def nan_copy_def nan_heap_def fresh_block_def wrap_def)


subsection \<open>Insert and Append\<close>

lemma Length_wf: "wf h a \<Longrightarrow> Length a = maxdex a - mindex a + 1"
  by (auto simp: wf_def Length_def wrap_id is_int_def split: ptr.splits)

lemma wf_nonneg: "wf h a \<Longrightarrow> mindex a \<le> maxdex a + 1"
  by (auto simp: wf_def split: ptr.splits)

lemma wf_above_min: "wf h a \<Longrightarrow> INT_MIN < maxdex a + 1"
  by (auto simp: wf_def is_int_def split: ptr.splits)







text \<open>
  Claim C10. For every \<open>n\<close> above \<open>Last()\<close>, \<open>Insert(v, n)\<close> and \<open>Append(v)\<close> return the same
  index and leave the same heap and the same array: both are \<open>InsertAt(v, Last() + 1)\<close>,
  the sum computed in \<open>int\<close>. The bounds of the array are \<open>int\<close>s. On a well-formed array
  with \<open>Last() + 1 < INT_MAX\<close> and \<open>Length() < INT_MAX\<close> that call returns \<open>Last() + 1\<close>.
\<close>

theorem Insert_above_Last_is_Append:
  assumes "is_int (First a)" and "is_int (Last a)" and "Last a < n"
  shows "Insert h a v n = Append h a v \<and>
         Insert h a v n = InsertAt h a v (wrap (Last a + 1)) \<and>
         (wf h a \<and> Last a + 1 < INT_MAX \<and> Last a - First a + 1 < INT_MAX \<longrightarrow>
            fst (Insert h a v n) = Ok (Last a + 1))"
proof -
  have i: "is_int (mindex a)" "is_int (maxdex a)" and n: "maxdex a < n"
    using assms by (simp_all add: First_def Last_def)
  have 1: "Insert h a v n = InsertAt h a v (wrap (maxdex a + 1))"
  proof (cases "n < mindex a")
    case True
    then have "maxdex a < INT_MAX" using n i by (simp add: is_int_def)
    then have "wrap (maxdex a + 1) = maxdex a + 1" using i by (simp add: wrap_id is_int_def)
    then have "wrap (maxdex a + 1) < mindex a" using True n by simp
    then show ?thesis using True by (simp add: Insert_def InsertAt_def)
  next
    case False
    have "n > wrap (maxdex a + 1) \<or> n = wrap (maxdex a + 1)"
    proof (cases "maxdex a < INT_MAX")
      case True
      then have "wrap (maxdex a + 1) = maxdex a + 1" using i by (simp add: wrap_id is_int_def)
      then show ?thesis using n by auto
    next
      case False
      then have "maxdex a = INT_MAX" using i by (simp add: is_int_def)
      then show ?thesis using n by (simp add: wrap_def)
    qed
    then have "(if n < mindex a then mindex a
                else (if n > wrap (maxdex a + 1) then wrap (maxdex a + 1) else n)) =
               wrap (maxdex a + 1)"
      using False by auto
    then show ?thesis by (simp add: Insert_def)
  qed
  have "fst (InsertAt h a v (wrap (maxdex a + 1))) = Ok (maxdex a + 1)"
    if w: "wf h a" and top: "maxdex a + 1 < INT_MAX"
      and room: "maxdex a - mindex a + 1 < INT_MAX"
  proof -
    have m: "mindex a \<le> maxdex a + 1" using w by (rule wf_nonneg)
    have am: "INT_MIN < maxdex a + 1" using w by (rule wf_above_min)
    have wr: "wrap (maxdex a + 1) = maxdex a + 1"
      using top am by (simp add: wrap_id is_int_def)
    show ?thesis using InsertAt_wf[OF w m order_refl top am room, of v] by (simp add: wr)
  qed
  then show ?thesis using 1 by (simp add: Append_def Last_def First_def)
qed

text \<open>On the example array, \<open>Insert(5, 4)\<close> and \<open>Insert(5, 9)\<close> are \<open>Append(5)\<close>.\<close>

theorem Insert_above_Last_is_Append_witness:
  "is_int (First ex_array) \<and> is_int (Last ex_array) \<and>
   Last ex_array < 3 + 1 \<and> Last ex_array < 9 \<and>
   Insert ex_heap ex_array 5 (3 + 1) = Append ex_heap ex_array 5 \<and>
   Insert ex_heap ex_array 5 9 = Append ex_heap ex_array 5 \<and>
   wf ex_heap ex_array \<and> fst (Insert ex_heap ex_array 5 9) = Ok 4"
proof -
  have f: "is_int (First ex_array)" and l: "is_int (Last ex_array)"
    by (simp_all add: ex_bounds is_int_def)
  have a: "Last ex_array < 3 + 1" and b: "Last ex_array < 9" by (simp_all add: ex_bounds)
  note t1 = Insert_above_Last_is_Append[OF f l a, of ex_heap 5]
  note t2 = Insert_above_Last_is_Append[OF f l b, of ex_heap 5]
  have 1: "Insert ex_heap ex_array 5 (3 + 1) = Append ex_heap ex_array 5"
    using t1 by (rule conjunct1)
  have 2: "Insert ex_heap ex_array 5 9 = Append ex_heap ex_array 5"
    using t2 by (rule conjunct1)
  have "wf ex_heap ex_array \<and> Last ex_array + 1 < INT_MAX \<and>
        Last ex_array - First ex_array + 1 < INT_MAX \<longrightarrow>
        fst (Insert ex_heap ex_array 5 9) = Ok (Last ex_array + 1)"
    using t2 by blast
  then have 3: "fst (Insert ex_heap ex_array 5 9) = Ok 4"
    using ex_wf by (simp only: ex_bounds) simp
  show ?thesis using f l a b 1 2 3 ex_wf by (intro conjI)
qed

subsection \<open>Remove\<close>

text \<open>
  Claim C2. On a well-formed array with \<open>Last()\<close> above \<open>INT_MIN\<close> and for \<open>n\<close> in
  \<open>[First, Last]\<close>, \<open>Remove(n)\<close> returns the element that was at \<open>n\<close>; the elements that
  were below \<open>n\<close> are where they were and the elements that were above \<open>n\<close> are one index
  lower, so that the remaining elements are all there, once each and in order; \<open>First\<close> is
  unchanged, \<open>Last\<close> and \<open>Length\<close> shrink by exactly one. The block the array owned is
  deleted, and when the array becomes empty \<open>data\<close> is null and no block takes its place.
\<close>

theorem Remove_correct:
  assumes "wf h a" and "First a \<le> n" and "n \<le> Last a" and "INT_MIN < Last a"
    and "Remove h a n = (r, h', a')"
  shows "r = index h a n \<and> (\<exists>x. r = Ok x) \<and>
         (\<forall>i. First a \<le> i \<and> i < n \<longrightarrow>
            (\<exists>x. index h a i = Ok x \<and> index h' a' i = Ok x)) \<and>
         (\<forall>i. n < i \<and> i \<le> Last a \<longrightarrow>
            (\<exists>x. index h a i = Ok x \<and> index h' a' (i - 1) = Ok x)) \<and>
         First a' = First a \<and> Last a' = Last a - 1 \<and> Length a' = Length a - 1 \<and>
         (\<exists>b. data a = Ptr b (- First a) \<and> blocks h' b = None) \<and>
         (Length a' = 0 \<longrightarrow> data a' = Null \<and> blocks h' = release (blocks h) (data a)) \<and>
         wf h' a'"
proof -
  have lo: "mindex a \<le> n" and hi: "n \<le> maxdex a" and bot: "INT_MIN < maxdex a"
    using assms(2,3,4) by (simp_all add: First_def Last_def)
  note o = Remove_obs[OF assms(1) lo hi bot assms(5)]
  have l: "int (length (elems h a)) = maxdex a - mindex a + 1"
    using assms(1) by (rule length_elems)
  note la = Length_wf[OF assms(1)] and la' = Length_wf[OF o(2)]
  define k where "k = nat (n - mindex a)"
  have kl: "k < length (elems h a)" using l lo hi by (simp add: k_def)
  have e: "elems h' a' = take k (elems h a) @ drop (Suc k) (elems h a)"
    using o(5) by (simp add: k_def)
  have 1: "r = index h a n" using o(1) index_wf[OF assms(1) lo hi] by simp
  have 2: "\<exists>x. index h a i = Ok x \<and> index h' a' i = Ok x" if "mindex a \<le> i" "i < n" for i
  proof -
    have "nat (i - mindex a) < k" "Suc (nat (i - mindex a)) < length (elems h a)"
      using that kl by (simp_all add: k_def)
    then show ?thesis
      using index_wf[OF o(2), of i] index_wf[OF assms(1), of i] o(3,4) that hi e kl
      by (simp add: nth_remove_at)
  qed
  have 3: "\<exists>x. index h a i = Ok x \<and> index h' a' (i - 1) = Ok x"
    if "n < i" "i \<le> maxdex a" for i
  proof -
    have "\<not> nat (i - 1 - mindex a) < k" "Suc (nat (i - 1 - mindex a)) < length (elems h a)"
      "Suc (nat (i - 1 - mindex a)) = nat (i - mindex a)"
      using that lo l by (simp_all add: k_def)
    then show ?thesis
      using index_wf[OF o(2), of "i - 1"] index_wf[OF assms(1), of i] o(3,4) that lo e kl
      by (simp add: nth_remove_at)
  qed
  have 4: "data a' = Null \<and> blocks h' = release (blocks h) (data a)" if "Length a' = 0"
    using o(7) that la' by simp
  have 5: "\<exists>x. r = Ok x" using o(1) by simp
  have 6: "Length a' = Length a - 1" using la la' o(3,4) by simp
  show ?thesis
    using 1 2 3 4 5 6 o(2,3,4,6) by (simp add: First_def Last_def)
qed

text \<open>Removing index 2 from the array 10, 20, 30 returns 20 and leaves 10, 30.\<close>

theorem Remove_correct_witness:
  "wf ex_heap ex_array \<and> First ex_array \<le> 2 \<and> 2 \<le> Last ex_array \<and>
   INT_MIN < Last ex_array \<and>
   (case Remove ex_heap ex_array 2 of
      (r, h', a') \<Rightarrow>
        r = Ok 20 \<and> index h' a' 1 = Ok 10 \<and> index h' a' 2 = Ok 30 \<and>
        First a' = 1 \<and> Last a' = 2 \<and> Length a' = 2 \<and> blocks h' 0 = None)"
proof -
  obtain r h' a' where e: "Remove ex_heap ex_array 2 = (r, h', a')"
    by (cases "Remove ex_heap ex_array 2") auto
  have lo: "First ex_array \<le> 2" and hi: "2 \<le> Last ex_array"
    and bot: "INT_MIN < Last ex_array"
    by (simp_all add: ex_bounds)
  note t = Remove_correct[OF ex_wf lo hi bot e, unfolded ex_bounds]
  have r: "r = Ok 20" using t ex_index by simp
  have b: "\<forall>i. 1 \<le> i \<and> i < 2 \<longrightarrow> (\<exists>x. index ex_heap ex_array i = Ok x \<and> index h' a' i = Ok x)"
    using t by blast
  have c: "\<forall>i. 2 < i \<and> i \<le> 3 \<longrightarrow>
       (\<exists>x. index ex_heap ex_array i = Ok x \<and> index h' a' (i - 1) = Ok x)"
    using t by blast
  have d: "blocks h' 0 = None" using t by (auto simp: ex_array_def)
  have "index h' a' 1 = Ok 10" using b[rule_format, of 1] ex_index by simp
  moreover have "index h' a' 2 = Ok 30" using c[rule_format, of 3] ex_index by simp
  ultimately show ?thesis using ex_wf lo hi e r d t by (simp add: ex_bounds)
qed

text \<open>
  The bound on \<open>Last()\<close> is needed: in the array that \<open>Array(INT_MIN, INT_MIN)\<close> builds,
  \<open>Remove(INT_MIN)\<close> decrements \<open>maxdex\<close> to \<open>INT_MAX\<close>, allocates no element, and the
  second loop reads beyond the old storage.
\<close>

theorem Remove_counterexample:
  "wf low_heap low_array \<and> First low_array \<le> - 2147483648 \<and>
   - 2147483648 \<le> Last low_array \<and> index low_heap low_array (- 2147483648) = Ok 7 \<and>
   fst (Remove low_heap low_array (- 2147483648)) = Undefined"
proof -
  have 1: "fst (Remove low_heap low_array (- 2147483648)) = Undefined"
    by (simp add: Remove_def low_array_def low_heap_def wrap_def new_array_def
        copy_loop.simps load_def store_def returned_def fresh_block_def Let_def)
  have 2: "index low_heap low_array (- 2147483648) = Ok 7"
    by (simp add: index_def low_array_def low_heap_def load_def)
  show ?thesis using 1 2 low_wf by (simp add: First_def Last_def low_array_def)
qed

subsection \<open>Failing operations\<close>

text \<open>
  Claim C6. For an index outside \<open>[First(), Last()]\<close>, \<open>operator[]\<close> throws IndexException,
  and so does an assignment through the non-const \<open>operator[]\<close>, which leaves the heap as
  it was; \<open>Remove\<close> throws IndexException and leaves both the heap and the array's fields
  as they were. (\<open>index\<close> is a function of the state to the outcome alone: the body of
  \<open>operator[]\<close> assigns nothing.) No well-formedness is needed: the test comes first, and
  it involves no arithmetic.
\<close>

theorem out_of_range_unchanged:
  assumes "i < First a \<or> Last a < i"
  shows "index h a i = Throw IndexException \<and>
         assign_at h a i v = (Throw IndexException, h) \<and>
         Remove h a i = (Throw IndexException, h, a)"
  using assms by (auto simp: index_def assign_at_def Remove_def First_def Last_def)

text \<open>The example array has bounds 1 to 3; indices 0 and 4 are outside.\<close>

theorem out_of_range_unchanged_witness:
  "(0 < First ex_array \<or> Last ex_array < 0) \<and> (4 < First ex_array \<or> Last ex_array < 4) \<and>
   index ex_heap ex_array 0 = Throw IndexException \<and>
   index ex_heap ex_array 4 = Throw IndexException \<and>
   Remove ex_heap ex_array 0 = (Throw IndexException, ex_heap, ex_array) \<and>
   Remove ex_heap ex_array 4 = (Throw IndexException, ex_heap, ex_array)"
proof -
  have a: "0 < First ex_array \<or> Last ex_array < 0"
    and b: "4 < First ex_array \<or> Last ex_array < 4"
    by (simp_all add: ex_bounds)
  show ?thesis
    using out_of_range_unchanged[OF a, of ex_heap 7] out_of_range_unchanged[OF b, of ex_heap 7]
      a b
    by blast
qed

subsection \<open>Construction from a range\<close>

text \<open>
  Claim C5. For all \<open>int\<close>s \<open>lo\<close> and \<open>hi\<close> with \<open>hi < INT_MAX\<close> and \<open>hi - lo < INT_MAX\<close>,
  \<open>Array(lo, hi)\<close> throws RangeException exactly when \<open>hi + 1 < lo\<close>, and then leaves the
  heap as it was. Otherwise it returns an array with \<open>First() = lo\<close>, \<open>Last() = hi\<close> and
  \<open>Length() = hi - lo + 1\<close> that is well formed; when \<open>hi = lo - 1\<close> the length is 0, \<open>data\<close>
  is null and nothing is allocated; when \<open>lo \<le> hi\<close> a new block of exactly \<open>hi - lo + 1\<close>
  elements is allocated.
\<close>

theorem Array_range_correct:
  assumes "is_int lo" and "is_int hi" and "hi < INT_MAX" and "hi - lo < INT_MAX"
  shows
  "(fst (Array_range h lo hi) = Throw RangeException \<longleftrightarrow> hi + 1 < lo) \<and>
   (hi + 1 < lo \<longrightarrow> Array_range h lo hi = (Throw RangeException, h)) \<and>
   (\<not> hi + 1 < lo \<longrightarrow>
      (\<exists>a h'. Array_range h lo hi = (Ok a, h') \<and>
         First a = lo \<and> Last a = hi \<and> Length a = hi - lo + 1 \<and> wf h' a \<and>
         (hi = lo - 1 \<longrightarrow> Length a = 0 \<and> data a = Null \<and> h' = h) \<and>
         (lo \<le> hi \<longrightarrow> data a = Ptr (lim h) (- lo) \<and>
            (\<exists>xs. blocks h' (lim h) = Some xs \<and> int (length xs) = hi - lo + 1))))"
proof -
  have w1: "wrap (hi + 1) = hi + 1" using assms(2,3) by (simp add: wrap_id is_int_def)
  have 1: "fst (Array_range h lo hi) = Throw RangeException \<longleftrightarrow> hi + 1 < lo"
  proof (cases "hi + 1 < lo")
    case True
    then show ?thesis by (simp add: Array_range_def w1)
  next
    case False
    then have w2: "wrap (hi - lo) = hi - lo" "wrap (hi - lo + 1) = hi - lo + 1"
      using assms(4) by (simp_all add: wrap_id is_int_def)
    show ?thesis
      using False by (simp add: Array_range_def w1 w2 new_array_def)
  qed
  have 2: "Array_range h lo hi = (Throw RangeException, h)" if "hi + 1 < lo"
    using that by (simp add: Array_range_def w1)
  have 3: "\<exists>a h'. Array_range h lo hi = (Ok a, h') \<and>
         First a = lo \<and> Last a = hi \<and> Length a = hi - lo + 1 \<and> wf h' a \<and>
         (hi = lo - 1 \<longrightarrow> Length a = 0 \<and> data a = Null \<and> h' = h) \<and>
         (lo \<le> hi \<longrightarrow> data a = Ptr (lim h) (- lo) \<and>
            (\<exists>xs. blocks h' (lim h) = Some xs \<and> int (length xs) = hi - lo + 1))"
    if n: "\<not> hi + 1 < lo"
  proof -
    have w2: "wrap (hi - lo) = hi - lo" "wrap (hi - lo + 1) = hi - lo + 1"
      using n assms(4) by (simp_all add: wrap_id is_int_def)
    show ?thesis
      using n assms(1,2,4)
      by (auto simp: Array_range_def new_array_def First_def Last_def Length_def wf_def w1 w2
          length_fresh_block)
  qed
  show ?thesis using 1 2 3 by blast
qed

text \<open>\<open>Array(7, 5)\<close> throws, \<open>Array(7, 6)\<close> is empty without storage, \<open>Array(1, 3)\<close> owns three elements.\<close>

theorem Array_range_correct_witness:
  "(5 + 1 < (7::int) \<and> Array_range empty_heap 7 5 = (Throw RangeException, empty_heap)) \<and>
   (\<not> 6 + 1 < (7::int) \<and> 6 = (7::int) - 1 \<and>
      Array_range empty_heap 7 6 = (Ok \<lparr>mindex = 7, maxdex = 6, data = Null\<rparr>, empty_heap)) \<and>
   (\<not> 3 + 1 < (1::int) \<and> (1::int) \<le> 3 \<and>
      (case Array_range empty_heap 1 3 of
         (r, h') \<Rightarrow> r = Ok \<lparr>mindex = 1, maxdex = 3, data = Ptr 0 (- 1)\<rparr> \<and>
           (\<exists>xs. blocks h' 0 = Some xs \<and> int (length xs) = 3)))"
proof -
  have i: "is_int 7" "is_int 5" "is_int 6" "is_int 1" "is_int 3" by (simp_all add: is_int_def)
  have 1: "Array_range empty_heap 7 5 = (Throw RangeException, empty_heap)"
    using Array_range_correct[OF i(1) i(2), of empty_heap] by simp
  obtain a h' where 2: "Array_range empty_heap 7 6 = (Ok a, h')"
    and 3: "First a = 7" "Last a = 6" "data a = Null" "h' = empty_heap"
    using Array_range_correct[OF i(1) i(3), of empty_heap] by auto
  have 4: "a = \<lparr>mindex = 7, maxdex = 6, data = Null\<rparr>"
    using 3 by (cases a) (simp add: First_def Last_def)
  obtain b h'' xs where 5: "Array_range empty_heap 1 3 = (Ok b, h'')"
    and 6: "First b = 1" "Last b = 3" "data b = Ptr (lim empty_heap) (- 1)"
      "blocks h'' (lim empty_heap) = Some xs" "int (length xs) = 3 - 1 + 1"
    using Array_range_correct[OF i(4) i(5), of empty_heap] by auto
  have 7: "b = \<lparr>mindex = 1, maxdex = 3, data = Ptr 0 (- 1)\<rparr>"
    using 6 by (cases b) (simp add: First_def Last_def empty_heap_def)
  show ?thesis using 1 2 3 4 5 6 7 by (simp add: empty_heap_def)
qed

text \<open>
  Both bounds are needed. \<open>Array(INT_MAX, INT_MAX)\<close> throws RangeException although
  \<open>hi + 1 < lo\<close> is false of the two numbers: the sum is computed in \<open>int\<close> and is
  \<open>INT_MIN\<close>. \<open>Array(-1, INT_MAX - 1)\<close> has \<open>lo \<le> hi\<close>, and the number of elements
  \<open>hi - lo + 1\<close>, computed in \<open>int\<close>, is negative: the allocation fails.
\<close>

theorem Array_range_counterexample:
  "\<not> (2147483647::int) + 1 < 2147483647 \<and>
   Array_range empty_heap 2147483647 2147483647 = (Throw RangeException, empty_heap) \<and>
   \<not> (2147483646::int) + 1 < - 1 \<and>
   Array_range empty_heap (- 1) 2147483646 = (Throw BadArrayNewLength, empty_heap)"
  by (simp add: Array_range_def wrap_def new_array_def)

subsection \<open>Find and Contains\<close>

text \<open>
  When \<open>Last()\<close> is \<open>INT_MAX\<close> and no element from \<open>i\<close> on equals \<open>t\<close>, the counter of the
  loop of \<open>Find\<close> wraps to \<open>INT_MIN\<close> and the loop reads \<open>data[INT_MIN]\<close>, which is before
  the storage.
\<close>

lemma Find_loop_top:
  assumes "wf h a" and "maxdex a = INT_MAX" and "mindex a \<le> i" and "i \<le> INT_MAX"
    and "\<forall>j. i \<le> j \<and> j \<le> INT_MAX \<longrightarrow> ne (elems h a ! nat (j - mindex a)) t"
  shows "Find_loop ne h a t i = Some Undefined"
  using assms(3-5)
proof (induction "nat (INT_MAX - i)" arbitrary: i)
  case 0
  then have i: "i = INT_MAX" by simp
  have le: "i \<le> maxdex a" using i assms(2) by simp
  have ld: "load h (data a) i = Ok (elems h a ! nat (i - mindex a))"
    using load_index[OF "0.prems"(1) le, of h] index_wf[OF assms(1) "0.prems"(1) le] by simp
  have n: "ne (elems h a ! nat (i - mindex a)) t" using "0.prems"(3) i by simp
  obtain b where d: "data a = Ptr b (- mindex a)" and m: "0 < mindex a"
    using assms(1,2) by (auto simp: wf_def is_int_def split: ptr.splits)
  have u: "load h (data a) INT_MIN = Undefined"
    using d m by (simp add: load_def split: option.splits)
  have w: "wrap (i + 1) = INT_MIN" using i by (simp add: wrap_def)
  have "Find_loop ne h a t INT_MIN = Some Undefined"
    using u assms(2) by (subst Find_loop.simps) simp
  then show ?case using le ld n w by (subst Find_loop.simps) simp
next
  case (Suc n)
  then have lt: "i < INT_MAX" by simp
  have le: "i \<le> maxdex a" using lt assms(2) by simp
  have ld: "load h (data a) i = Ok (elems h a ! nat (i - mindex a))"
    using load_index[OF Suc.prems(1) le, of h] index_wf[OF assms(1) Suc.prems(1) le] by simp
  have n: "ne (elems h a ! nat (i - mindex a)) t" using Suc.prems(2,3) by simp
  have ii: "is_int (i + 1)" using lt Suc.prems(1) assms(1) by (simp add: is_int_def wf_def)
  have w: "wrap (i + 1) = i + 1" using ii by (rule wrap_id)
  have "Find_loop ne h a t (i + 1) = Some Undefined"
    using Suc.hyps(2) Suc.prems lt by (intro Suc.hyps(1)) auto
  then show ?case using le ld n w by (subst Find_loop.simps) simp
qed

text \<open>
  Claim C7. Equality of elements is the negation of \<open>T\<close>'s \<open>!=\<close>. On a well-formed array:
  if some index of \<open>[First, Last]\<close> holds an element equal to \<open>v\<close>, then \<open>Find(v)\<close> returns
  an index \<open>r\<close> of \<open>[First, Last]\<close> that holds one, no lower index does, \<open>r\<close> differs from
  \<open>First - 1\<close> and \<open>Contains(v)\<close> returns true. If no index holds one and \<open>Last()\<close> is below
  \<open>INT_MAX\<close>, then \<open>Find(v)\<close> returns \<open>First - 1\<close> as computed in \<open>int\<close>, which is
  \<open>First - 1\<close> when \<open>First()\<close> is above \<open>INT_MIN\<close>, and \<open>Contains(v)\<close> returns false. For an
  empty array \<open>First - 1\<close> is \<open>Last\<close>.
\<close>

theorem Find_correct:
  assumes "wf h a"
  shows "((\<exists>i. First a \<le> i \<and> i \<le> Last a \<and> (\<exists>x. index h a i = Ok x \<and> \<not> ne x v)) \<longrightarrow>
            (\<exists>r. Find ne h a v = Ok r \<and> First a \<le> r \<and> r \<le> Last a \<and>
                 (\<exists>x. index h a r = Ok x \<and> \<not> ne x v) \<and>
                 (\<forall>i. First a \<le> i \<and> i < r \<longrightarrow> (\<exists>x. index h a i = Ok x \<and> ne x v)) \<and>
                 r \<noteq> First a - 1) \<and>
            Contains ne h a v = Ok True) \<and>
         (\<not> (\<exists>i. First a \<le> i \<and> i \<le> Last a \<and> (\<exists>x. index h a i = Ok x \<and> \<not> ne x v)) \<and>
          Last a < INT_MAX \<longrightarrow>
            Find ne h a v = Ok (wrap (First a - 1)) \<and>
            (INT_MIN < First a \<longrightarrow> Find ne h a v = Ok (First a - 1)) \<and>
            Contains ne h a v = Ok False) \<and>
         (Length a = 0 \<longrightarrow> First a - 1 = Last a)"
proof -
  have m: "mindex a \<le> maxdex a + 1" using assms by (rule wf_nonneg)
  have im: "is_int (mindex a)" and rm: "maxdex a - mindex a < INT_MAX"
    using assms by (auto simp: wf_def split: ptr.splits)
  have ix: "index h a i = Ok (elems h a ! nat (i - mindex a))"
    if "mindex a \<le> i" "i \<le> maxdex a" for i
    using index_wf[OF assms that] .
  define F where
    "F = (\<exists>i. mindex a \<le> i \<and> i \<le> maxdex a \<and> (\<exists>x. index h a i = Ok x \<and> \<not> ne x v))"
  have p: "(\<exists>r. Find ne h a v = Ok r \<and> mindex a \<le> r \<and> r \<le> maxdex a \<and>
                 (\<exists>x. index h a r = Ok x \<and> \<not> ne x v) \<and>
                 (\<forall>i. mindex a \<le> i \<and> i < r \<longrightarrow> (\<exists>x. index h a i = Ok x \<and> ne x v)) \<and>
                 r \<noteq> mindex a - 1) \<and>
            Contains ne h a v = Ok True" if F
  proof -
    from that obtain i x where i: "mindex a \<le> i" "i \<le> maxdex a" "index h a i = Ok x"
      "\<not> ne x v"
      unfolding F_def by blast
    have ei: "\<not> ne (elems h a ! nat (i - mindex a)) v" using i ix[OF i(1,2)] by simp
    have "\<exists>j. mindex a \<le> j \<and> j \<le> maxdex a \<and> \<not> ne (elems h a ! nat (j - mindex a)) v"
      using i(1,2) ei by blast
    then have "maxdex a < INT_MAX \<or>
         (\<exists>j. mindex a \<le> j \<and> j \<le> maxdex a \<and> \<not> ne (elems h a ! nat (j - mindex a)) v)"
      by (rule disjI2)
    from Find_loop_wf[where i = "mindex a" and ne = ne and t = v, OF assms order_refl m this]
    obtain j where j: "Find_loop ne h a v (mindex a) = Some (Ok j)" "mindex a \<le> j"
      "\<forall>l. mindex a \<le> l \<and> l < j \<longrightarrow> ne (elems h a ! nat (l - mindex a)) v"
      "j \<le> maxdex a \<longrightarrow> \<not> ne (elems h a ! nat (j - mindex a)) v"
      by blast
    have "j \<le> i"
    proof (rule ccontr)
      assume "\<not> j \<le> i"
      then have "mindex a \<le> i \<and> i < j" using i by simp
      then show False using j(3) ei by blast
    qed
    then have l: "j \<le> maxdex a" using i by simp
    have f: "Find ne h a v = Ok j" using j(1) l by (simp add: Find_def returned_def)
    have w: "j \<noteq> wrap (mindex a - 1)"
    proof (cases "INT_MIN < mindex a")
      case True
      then have "wrap (mindex a - 1) = mindex a - 1" using im by (simp add: wrap_id is_int_def)
      then show ?thesis using j(2) by simp
    next
      case False
      then have "mindex a = INT_MIN" using im by (simp add: is_int_def)
      then have "wrap (mindex a - 1) = INT_MAX" "j < INT_MAX"
        using l rm by (simp_all add: wrap_def)
      then show ?thesis by simp
    qed
    have c: "Contains ne h a v = Ok True" using f w by (simp add: Contains_def)
    have b: "\<exists>x. index h a l = Ok x \<and> ne x v" if "mindex a \<le> l" "l < j" for l
      using ix[of l] j(3) that l by simp
    have "\<exists>x. index h a j = Ok x \<and> \<not> ne x v" using ix[OF j(2) l] j(4) l by simp
    then show ?thesis using f j(2) l b c by auto
  qed
  have q: "Find ne h a v = Ok (wrap (mindex a - 1)) \<and>
            (INT_MIN < mindex a \<longrightarrow> Find ne h a v = Ok (mindex a - 1)) \<and>
            Contains ne h a v = Ok False" if "\<not> F" "maxdex a < INT_MAX"
  proof -
    have "maxdex a < INT_MAX \<or>
         (\<exists>j. mindex a \<le> j \<and> j \<le> maxdex a \<and> \<not> ne (elems h a ! nat (j - mindex a)) v)"
      using that(2) by (rule disjI1)
    from Find_loop_wf[where i = "mindex a" and ne = ne and t = v, OF assms order_refl m this]
    obtain j where j: "Find_loop ne h a v (mindex a) = Some (Ok j)" "mindex a \<le> j"
      "j \<le> maxdex a \<longrightarrow> \<not> ne (elems h a ! nat (j - mindex a)) v"
      by blast
    have n: "\<not> j \<le> maxdex a"
    proof
      assume l: "j \<le> maxdex a"
      then have "index h a j = Ok (elems h a ! nat (j - mindex a))"
        "\<not> ne (elems h a ! nat (j - mindex a)) v"
        using ix[OF j(2) l] j(3) by simp_all
      then have F unfolding F_def using j(2) l by blast
      then show False using that(1) by contradiction
    qed
    have f: "Find ne h a v = Ok (wrap (mindex a - 1))"
      using j(1) n by (simp add: Find_def returned_def)
    have c: "Contains ne h a v = Ok False" using f by (simp add: Contains_def)
    have "wrap (mindex a - 1) = mindex a - 1" if "INT_MIN < mindex a"
      using that im by (simp add: wrap_id is_int_def)
    then show ?thesis using f c by simp
  qed
  have e: "Length a = 0 \<longrightarrow> mindex a - 1 = maxdex a" using Length_wf[OF assms] by simp
  show ?thesis using p q e unfolding F_def First_def Last_def by blast
qed

text \<open>In the array 10, 20, 30 with bounds 1 to 3, 20 is found at 2 and 25 is not found.\<close>

theorem Find_correct_witness:
  "wf ex_heap ex_array \<and> Last ex_array < INT_MAX \<and> INT_MIN < First ex_array \<and>
   Find int_ne ex_heap ex_array 20 = Ok 2 \<and> Contains int_ne ex_heap ex_array 20 = Ok True \<and>
   Find int_ne ex_heap ex_array 25 = Ok 0 \<and> Contains int_ne ex_heap ex_array 25 = Ok False"
proof -
  have i123: "i = 1 \<or> i = 2 \<or> i = 3" if "1 \<le> i" "i \<le> 3" for i :: int
    using that by arith
  note t = Find_correct[OF ex_wf, of int_ne 20, unfolded ex_bounds]
  have "\<exists>i. 1 \<le> i \<and> i \<le> 3 \<and> (\<exists>x. index ex_heap ex_array i = Ok x \<and> \<not> int_ne x 20)"
    using ex_index(2) by (intro exI[of _ 2]) (simp add: int_ne_def)
  then obtain r where r: "Find int_ne ex_heap ex_array 20 = Ok r" "1 \<le> r" "r \<le> 3"
    "\<exists>x. index ex_heap ex_array r = Ok x \<and> \<not> int_ne x 20"
    "Contains int_ne ex_heap ex_array 20 = Ok True"
    using t by blast
  have r2: "r = 2" using i123[OF r(2,3)] r(4) ex_index by (auto simp: int_ne_def)
  note s = Find_correct[OF ex_wf, of int_ne 25, unfolded ex_bounds]
  have "\<not> (\<exists>i. 1 \<le> i \<and> i \<le> 3 \<and> (\<exists>x. index ex_heap ex_array i = Ok x \<and> \<not> int_ne x 25))"
    using i123 ex_index by (fastforce simp: int_ne_def)
  then have "Find int_ne ex_heap ex_array 25 = Ok (1 - 1) \<and>
             Contains int_ne ex_heap ex_array 25 = Ok False"
    using s by (simp add: wrap_def)
  then show ?thesis using ex_wf r(1,5) r2 by (simp add: ex_bounds)
qed

text \<open>
  The two bounds of the second case are needed. In the array 1, 2, 3 that
  \<open>Array(INT_MIN, INT_MIN + 2)\<close> holds, \<open>Find(99)\<close> returns \<open>INT_MAX\<close>, which is not
  \<open>First() - 1\<close>, while \<open>Contains(99)\<close> returns false. In the array of \<open>INT_MAX\<close> zeros that
  \<open>Array(2147483647u)\<close> holds, \<open>Find(99)\<close> returns no index: its loop reads before the
  storage.
\<close>

theorem Find_counterexample:
  "wf low3_heap low3_array \<and>
   index low3_heap low3_array (- 2147483648) = Ok 1 \<and>
   index low3_heap low3_array (- 2147483647) = Ok 2 \<and>
   index low3_heap low3_array (- 2147483646) = Ok 3 \<and>
   Find int_ne low3_heap low3_array 99 = Ok 2147483647 \<and>
   2147483647 \<noteq> First low3_array - 1 \<and>
   Contains int_ne low3_heap low3_array 99 = Ok False \<and>
   wf full_heap full_array \<and> Find int_ne full_heap full_array 99 = Undefined"
proof -
  have w: "wf low3_heap low3_array"
    by (simp add: wf_def is_int_def low3_heap_def low3_array_def)
  have i: "index low3_heap low3_array (- 2147483648) = Ok 1"
    "index low3_heap low3_array (- 2147483647) = Ok 2"
    "index low3_heap low3_array (- 2147483646) = Ok 3"
    by (simp_all add: index_def load_def low3_heap_def low3_array_def)
  have f: "Find int_ne low3_heap low3_array 99 = Ok 2147483647"
    by (simp add: Find_def Find_loop.simps load_def low3_heap_def low3_array_def int_ne_def
        returned_def wrap_def)
  have c: "Contains int_ne low3_heap low3_array 99 = Ok False"
    using f by (simp add: Contains_def low3_array_def wrap_def)
  have n: "2147483647 \<noteq> First low3_array - 1" by (simp add: First_def low3_array_def)
  have e: "elems full_heap full_array = fresh_block (\<lambda>j. 0) 2147483647"
    by (simp add: elems_def full_heap_def full_array_def)
  have z: "fresh_block (\<lambda>j. 0::int) 2147483647 ! nat (j - 1) = 0"
    if "1 \<le> j" "j \<le> INT_MAX" for j :: int
    unfolding fresh_block_def using that by (subst nth_map) simp_all
  have "\<forall>j. 1 \<le> j \<and> j \<le> INT_MAX \<longrightarrow>
          int_ne (elems full_heap full_array ! nat (j - mindex full_array)) 99"
    unfolding e using z by (simp add: int_ne_def full_array_def)
  then have "Find_loop int_ne full_heap full_array 99 (mindex full_array) = Some Undefined"
    by (intro Find_loop_top[OF full_wf(1)]) (simp_all add: full_array_def)
  then have u: "Find int_ne full_heap full_array 99 = Undefined"
    by (simp add: Find_def returned_def)
  show ?thesis using w i f c n u full_wf(1) by simp
qed

subsection \<open>The iterator\<close>

text \<open>
  Claim C9. A new iterator has its cursor at the array's \<open>First()\<close>. Both increment
  operators give the same iterator, with the same array and, when the cursor is below
  \<open>INT_MAX\<close>, the cursor one higher. \<open>AtEnd()\<close> holds exactly when the cursor is above the
  array's \<open>Last()\<close>, which after \<open>k\<close> increments of a new iterator, as long as
  \<open>First() + k\<close> is at most \<open>INT_MAX\<close>, means \<open>Last() < First() + k\<close>. When \<open>AtEnd()\<close>
  holds, \<open>operator*\<close>, \<open>operator->\<close> and the pointer conversion throw IndexException, as
  \<open>operator[]\<close> of the array does.
\<close>

theorem Iterator_contract:
  "m_index (Iterator a) = First a \<and> m_array (Iterator a) = a \<and>
   incr_prefix it = incr_postfix it \<and>
   (is_int (m_index it) \<and> m_index it < INT_MAX \<longrightarrow>
      m_index (incr_prefix it) = m_index it + 1) \<and>
   m_array (incr_prefix it) = m_array it \<and>
   (AtEnd it \<longleftrightarrow> Last (m_array it) < m_index it) \<and>
   (is_int (First a) \<and> First a + int k \<le> INT_MAX \<longrightarrow>
      (AtEnd ((incr_prefix ^^ k) (Iterator a)) \<longleftrightarrow> Last a < First a + int k)) \<and>
   (AtEnd it \<longrightarrow>
      deref h objs it = Throw IndexException \<and> arrow h it = Throw IndexException \<and>
      to_pointer h it = Throw IndexException)"
proof -
  have "is_int (First a) \<and> First a + int k \<le> INT_MAX \<longrightarrow>
        m_index ((incr_prefix ^^ k) (Iterator a)) = First a + int k \<and>
        m_array ((incr_prefix ^^ k) (Iterator a)) = a"
    by (induction k) (simp_all add: Iterator_def incr_prefix_def wrap_id is_int_def)
  moreover have "is_int (m_index it) \<and> m_index it < INT_MAX \<longrightarrow>
      m_index (incr_prefix it) = m_index it + 1"
    by (simp add: incr_prefix_def wrap_id is_int_def)
  ultimately show ?thesis
    by (simp add: Iterator_def incr_prefix_def incr_postfix_def AtEnd_def deref_def arrow_def
        to_pointer_def index_def Last_def)
qed

text \<open>
  Over the example array, read as an array of pointers 10, 20, 30: after three increments
  the iterator is at its end and dereferencing throws; after two it is not at its end.
\<close>

theorem Iterator_contract_witness:
  "AtEnd (incr_prefix (incr_prefix (incr_prefix (Iterator ex_array)))) \<and>
   deref ex_heap [10 \<mapsto> ''a'', 20 \<mapsto> ''b'', 30 \<mapsto> ''c'']
     (incr_prefix (incr_prefix (incr_prefix (Iterator ex_array)))) = Throw IndexException \<and>
   arrow ex_heap (incr_prefix (incr_prefix (incr_prefix (Iterator ex_array)))) =
     Throw IndexException \<and>
   \<not> AtEnd (incr_prefix (incr_prefix (Iterator ex_array))) \<and>
   is_int (m_index (Iterator ex_array)) \<and> m_index (Iterator ex_array) < INT_MAX \<and>
   m_index (incr_prefix (Iterator ex_array)) = 2"
proof -
  define it3 where "it3 = incr_prefix (incr_prefix (incr_prefix (Iterator ex_array)))"
  define it2 where "it2 = incr_prefix (incr_prefix (Iterator ex_array))"
  define objs :: "int \<rightharpoonup> string" where "objs = [10 \<mapsto> ''a'', 20 \<mapsto> ''b'', 30 \<mapsto> ''c'']"
  have k: "is_int (First ex_array) \<and> First ex_array + int 3 \<le> INT_MAX"
    "is_int (First ex_array) \<and> First ex_array + int 2 \<le> INT_MAX"
    by (simp_all add: ex_bounds is_int_def)
  have "AtEnd ((incr_prefix ^^ 3) (Iterator ex_array)) \<longleftrightarrow>
          Last ex_array < First ex_array + int 3"
    using Iterator_contract[of ex_array it3 3 ex_heap objs] k(1) by blast
  then have e3: "AtEnd it3" by (simp add: it3_def ex_bounds numeral_3_eq_3)
  have "AtEnd ((incr_prefix ^^ 2) (Iterator ex_array)) \<longleftrightarrow>
          Last ex_array < First ex_array + int 2"
    using Iterator_contract[of ex_array it2 2 ex_heap objs] k(2) by blast
  then have n2: "\<not> AtEnd it2" by (simp add: it2_def ex_bounds numeral_2_eq_2)
  have t3: "AtEnd it3 \<longrightarrow>
      deref ex_heap objs it3 = Throw IndexException \<and> arrow ex_heap it3 = Throw IndexException \<and>
      to_pointer ex_heap it3 = Throw IndexException"
    using Iterator_contract[of ex_array it3 0 ex_heap objs] by blast
  have i0: "is_int (m_index (Iterator ex_array))" "m_index (Iterator ex_array) < INT_MAX"
    by (simp_all add: Iterator_def ex_bounds is_int_def)
  have "is_int (m_index (Iterator ex_array)) \<and> m_index (Iterator ex_array) < INT_MAX \<longrightarrow>
      m_index (incr_prefix (Iterator ex_array)) = m_index (Iterator ex_array) + 1"
    using Iterator_contract[of ex_array "Iterator ex_array" 0 ex_heap objs] by blast
  then have m1: "m_index (incr_prefix (Iterator ex_array)) = 2"
    using i0 by (simp add: Iterator_def ex_bounds)
  have "deref ex_heap objs it3 = Throw IndexException \<and> arrow ex_heap it3 = Throw IndexException"
    using t3 e3 by blast
  then show ?thesis using e3 n2 m1 i0 by (simp add: it3_def it2_def objs_def)
qed

text \<open>
  Over the array that \<open>Array(INT_MAX - 1, INT_MAX - 1)\<close> builds, one increment brings the
  cursor to \<open>INT_MAX\<close>, where the iterator is at its end; the next one brings it to
  \<open>INT_MIN\<close>, not one higher, where the iterator is not at its end any more, although
  \<open>Last() < First() + 2\<close>.
\<close>

theorem Iterator_counterexample:
  "m_index (incr_prefix (Iterator top_array)) = 2147483647 \<and>
   AtEnd (incr_prefix (Iterator top_array)) \<and>
   m_index (incr_prefix (incr_prefix (Iterator top_array))) = - 2147483648 \<and>
   m_index (incr_postfix (incr_postfix (Iterator top_array))) = - 2147483648 \<and>
   \<not> AtEnd (incr_prefix (incr_prefix (Iterator top_array))) \<and>
   Last top_array < First top_array + 2"
  by (simp add: Iterator_def incr_prefix_def incr_postfix_def AtEnd_def First_def Last_def
      top_array_def wrap_def)

subsection \<open>Append followed by Remove\<close>






subsection \<open>Assignment\<close>

text \<open>
  Claim C8. Let the receiver and the argument be well-formed arrays that share no
  storage, and let the argument's \<open>Last()\<close> be below \<open>INT_MAX\<close>. After the assignment the receiver has the argument's \<open>First\<close> and \<open>Last\<close>, and
  every index of that range holds in the receiver what it holds in the argument, which is
  itself unchanged; the two still share no storage. If the receiver had storage and the
  argument's bounds, its \<open>data\<close> pointer is the same as before and no block was allocated
  or deleted: the elements were overwritten in place. If the bounds differ, the
  receiver's old block is deleted and \<open>data\<close> points to a newly allocated block of exactly
  \<open>Length\<close> elements of the argument, or, the argument being empty, \<open>data\<close> is null and
  nothing is allocated.
\<close>

theorem assign_deep_copy:
  assumes "wf h this" and "wf h a" and "separate this a" and "Last a < INT_MAX"
    and "assign h this a = (r, h', this')"
  shows "r = Ok () \<and> First this' = First a \<and> Last this' = Last a \<and>
         (\<forall>i. First a \<le> i \<and> i \<le> Last a \<longrightarrow>
            (\<exists>x. index h a i = Ok x \<and> index h' this' i = Ok x \<and> index h' a i = Ok x)) \<and>
         wf h' this' \<and> wf h' a \<and> separate this' a \<and>
         (data this \<noteq> Null \<and> First this = First a \<and> Last this = Last a \<longrightarrow>
            data this' = data this \<and> lim h' = lim h \<and> dom (blocks h') = dom (blocks h)) \<and>
         (First this \<noteq> First a \<or> Last this \<noteq> Last a \<longrightarrow>
            (\<forall>b off. data this = Ptr b off \<longrightarrow> blocks h' b = None) \<and>
            (First a \<le> Last a \<longrightarrow>
               data this' = Ptr (lim h) (- First a) \<and> data this' \<noteq> data this \<and>
               lim h' = Suc (lim h) \<and>
               (\<exists>xs. blocks h' (lim h) = Some xs \<and> int (length xs) = Length a)) \<and>
            (Last a < First a \<longrightarrow> data this' = Null \<and> lim h' = lim h))"
proof -
  have top: "maxdex a < INT_MAX" using assms(4) by (simp add: Last_def)
  note o = assign_obs[OF assms(1-3) top assms(5)]
  note L = Length_wf[OF assms(2)]
  have la: "int (length (elems h a)) = maxdex a - mindex a + 1"
    using assms(2) by (rule length_elems)
  have ix: "\<exists>x. index h a i = Ok x \<and> index h' this' i = Ok x \<and> index h' a i = Ok x"
    if "mindex a \<le> i" "i \<le> maxdex a" for i
    using index_wf[OF assms(2) that] index_wf[OF o(4), of i] index_wf[OF o(6) that] that o(2,3,5,7)
    by simp
  have reuse: "data this' = data this \<and> lim h' = lim h \<and> dom (blocks h') = dom (blocks h)"
    if nn: "data this \<noteq> Null" and same: "mindex this = mindex a" "maxdex this = maxdex a"
  proof -
    obtain b off where d: "data this = Ptr b off" using nn by (cases "data this") auto
    have "blocks h b \<noteq> None" using assms(1) d by (auto simp: wf_def split: option.splits)
    then have "insert b (dom (blocks h)) = dom (blocks h)" by auto
    then show ?thesis
      using assign_reuse[OF assms(1-3) d same top] assms(5) by auto
  qed
  have differ: "(\<forall>b off. data this = Ptr b off \<longrightarrow> blocks h' b = None) \<and>
            (mindex a \<le> maxdex a \<longrightarrow>
               data this' = Ptr (lim h) (- mindex a) \<and> data this' \<noteq> data this \<and>
               lim h' = Suc (lim h) \<and>
               (\<exists>xs. blocks h' (lim h) = Some xs \<and> int (length xs) = maxdex a - mindex a + 1)) \<and>
            (maxdex a < mindex a \<longrightarrow> data this' = Null \<and> lim h' = lim h)"
    if "mindex this \<noteq> mindex a \<or> maxdex this \<noteq> maxdex a"
  proof (cases "maxdex a < mindex a")
    case True
    then show ?thesis
      using assign_empty[OF assms(1,2) True] assms(5)
      by (auto simp: release_def)
  next
    case False
    then have ne: "mindex a \<le> maxdex a" by simp
    have diff: "data this = Null \<or> mindex this \<noteq> mindex a \<or> maxdex this \<noteq> maxdex a"
      using that by auto
    have lt: "b < lim h" if "data this = Ptr b off" for b off
      using assms(1) that by (simp add: wf_def)
    have nd: "Ptr (lim h) off \<noteq> data this" for off
      using lt[of "lim h" off] by auto
    have fr: "blocks h' b = None" if "data this = Ptr b off" for b off
      using assign_fresh[OF assms(1-3) diff ne top] assms(5) lt[OF that] that
      by (auto simp: release_def)
    show ?thesis
      using assign_fresh[OF assms(1-3) diff ne top] assms(5) ne la nd fr
      by auto
  qed
  show ?thesis
    unfolding First_def Last_def L
  proof (intro conjI)
    show "r = Ok ()" by (rule o(1))
    show "mindex this' = mindex a" by (rule o(2))
    show "maxdex this' = maxdex a" by (rule o(3))
    show "wf h' this'" by (rule o(4))
    show "wf h' a" by (rule o(6))
    show "separate this' a" by (rule o(8))
    show "\<forall>i. mindex a \<le> i \<and> i \<le> maxdex a \<longrightarrow>
        (\<exists>x. index h a i = Ok x \<and> index h' this' i = Ok x \<and> index h' a i = Ok x)"
      using ix by blast
    show "data this \<noteq> Null \<and> mindex this = mindex a \<and> maxdex this = maxdex a \<longrightarrow>
        data this' = data this \<and> lim h' = lim h \<and> dom (blocks h') = dom (blocks h)"
      using reuse by blast
    show "mindex this \<noteq> mindex a \<or> maxdex this \<noteq> maxdex a \<longrightarrow>
        (\<forall>b off. data this = Ptr b off \<longrightarrow> blocks h' b = None) \<and>
        (mindex a \<le> maxdex a \<longrightarrow>
           data this' = Ptr (lim h) (- mindex a) \<and> data this' \<noteq> data this \<and>
           lim h' = Suc (lim h) \<and>
           (\<exists>xs. blocks h' (lim h) = Some xs \<and> int (length xs) = maxdex a - mindex a + 1)) \<and>
        (maxdex a < mindex a \<longrightarrow> data this' = Null \<and> lim h' = lim h)"
      using differ by blast
  qed
qed

text \<open>
  Assigning the example array to a receiver of the same bounds keeps the receiver's block
  1; assigning it to a receiver with bounds 0 to 1 deletes that receiver's block 2 and
  allocates block 3.
\<close>

theorem assign_deep_copy_witness:
  "wf ex_heap3 ex_array \<and> wf ex_heap3 ex_same \<and> wf ex_heap3 ex_other \<and>
   separate ex_same ex_array \<and> separate ex_other ex_array \<and> Last ex_array < INT_MAX \<and>
   (case assign ex_heap3 ex_same ex_array of
      (r, h', this') \<Rightarrow>
        r = Ok () \<and> First this' = 1 \<and> Last this' = 3 \<and> index h' this' 2 = Ok 20 \<and>
        data this' = Ptr 1 (- 1) \<and> lim h' = 3) \<and>
   (case assign ex_heap3 ex_other ex_array of
      (r, h', this') \<Rightarrow>
        r = Ok () \<and> First this' = 1 \<and> Last this' = 3 \<and> index h' this' 2 = Ok 20 \<and>
        data this' = Ptr 3 (- 1) \<and> lim h' = 4 \<and> blocks h' 2 = None)"
proof -
  have i2: "index ex_heap3 ex_array 2 = Ok 20"
    by (simp add: index_def load_def ex_heap3_def ex_array_def)
  have t: "Last ex_array < INT_MAX" by (simp add: ex_bounds)
  obtain r h' t' where A: "assign ex_heap3 ex_same ex_array = (r, h', t')"
    by (cases "assign ex_heap3 ex_same ex_array") auto
  note s = assign_deep_copy[OF ex_wf3(2,1,4) t A, unfolded ex_bounds]
  have s1: "r = Ok ()" "First t' = 1" "Last t' = 3" using s by simp_all
  have "\<exists>x. index ex_heap3 ex_array 2 = Ok x \<and> index h' t' 2 = Ok x \<and> index h' ex_array 2 = Ok x"
    using s by simp
  then have s2: "index h' t' 2 = Ok 20" using i2 by auto
  have "data ex_same \<noteq> Null \<and> First ex_same = 1 \<and> Last ex_same = 3"
    by (simp add: ex_same_def First_def Last_def)
  then have s3: "data t' = Ptr 1 (- 1)" "lim h' = 3"
    using s by (simp_all add: ex_same_def ex_heap3_def)
  obtain q g' u' where B: "assign ex_heap3 ex_other ex_array = (q, g', u')"
    by (cases "assign ex_heap3 ex_other ex_array") auto
  note d = assign_deep_copy[OF ex_wf3(3,1,5) t B, unfolded ex_bounds]
  have d1: "q = Ok ()" "First u' = 1" "Last u' = 3" using d by simp_all
  have "\<exists>x. index ex_heap3 ex_array 2 = Ok x \<and> index g' u' 2 = Ok x \<and> index g' ex_array 2 = Ok x"
    using d by simp
  then have d2: "index g' u' 2 = Ok 20" using i2 by auto
  have n: "First ex_other \<noteq> 1 \<or> Last ex_other \<noteq> 3"
    by (simp add: ex_other_def First_def Last_def)
  have d3: "data u' = Ptr 3 (- 1)" "lim g' = 4" "blocks g' 2 = None"
    using d n by (simp_all add: ex_other_def ex_heap3_def)
  show ?thesis
    using ex_wf3 A B s1 s2 s3 d1 d2 d3 by (simp add: ex_bounds)
qed

text \<open>
  The bound on the argument's \<open>Last()\<close> is needed. \<open>Array(2147483647u)\<close> builds an
  array with bounds 1 and \<open>INT_MAX\<close>; assigning it to an empty array allocates the
  \<open>INT_MAX\<close> elements, and then the copying loop, whose test \<open>i <= maxdex\<close> no \<open>int\<close>
  falsifies, does not come to its end: the assignment does not return.
\<close>

theorem assign_counterexample:
  "wf full_heap none_array \<and> wf full_heap full_array \<and> separate none_array full_array \<and>
   fst (assign full_heap none_array full_array) \<noteq> Ok ()"
proof -
  obtain p h2 where n: "new_array full_heap 2147483647 1 = Ok (p, h2)"
    by (simp add: new_array_def)
  let ?t = "\<lparr>mindex = 1, maxdex = INT_MAX, data = p\<rparr>"
  define c where "c = copy_loop h2 p (Ptr 0 (- 1)) 0 1 INT_MAX"
  have a: "assign full_heap none_array full_array =
             (case returned c of
                Ok (h4, i) \<Rightarrow> (Ok (), h4, ?t)
              | Throw e \<Rightarrow> (Throw e, h2, ?t)
              | Undefined \<Rightarrow> (Undefined, h2, ?t)
              | Diverges \<Rightarrow> (Diverges, h2, ?t))"
    by (simp add: assign_def none_array_def full_array_def wrap_def n c_def)
  have "returned c \<noteq> Ok (h4, i)" for h4 i
  proof (cases c)
    case None
    then show ?thesis by (simp add: returned_def)
  next
    case (Some r)
    have "is_int 1" by (simp add: is_int_def)
    then have "\<forall>h' i'. r = Ok (h', i') \<longrightarrow> INT_MAX < i' \<and> is_int i'"
      using copy_loop_exit[OF Some[unfolded c_def]] by simp
    then have "r \<noteq> Ok (h4, i)" by (auto simp: is_int_def)
    then show ?thesis using Some by (simp add: returned_def)
  qed
  then have "fst (assign full_heap none_array full_array) \<noteq> Ok ()"
    unfolding a by (cases "returned c") auto
  then show ?thesis using full_wf by simp
qed

end
